theory Spec2Isabelle
  imports Main "HOL-Library.AList" "HOL-Library.Multiset"
begin

section \<open>Errors\<close>

text \<open>
  Every exception the modelled code can raise is a value.  \<open>NotImplementedError\<close>,
  \<open>IndexError\<close> and \<open>KeyError\<close> are raised by the Python code itself; \<open>ValueError\<close>
  and \<open>TypeError\<close> come from the table library, \<open>CircuitError\<close> from the circuit library.
\<close>

datatype error =
    NotImplementedError
  | IndexError
  | KeyError
  | ValueError
  | TypeError
  | CircuitError

section \<open>The result formatter \<open>organize_qiskit_result\<close>\<close>

subsection \<open>Python primitives\<close>

text \<open>
  \<open>s.split(' ')\<close>: a new piece starts after every single space, so two adjacent
  spaces give an empty piece and the result always has at least one piece.
\<close>

fun split_from :: "string \<Rightarrow> string \<Rightarrow> string list" where
  "split_from piece [] = [piece]"
| "split_from piece (c # cs) =
     (if c = CHR '' '' then piece # split_from [] cs else split_from (piece @ [c]) cs)"

definition py_split :: "string \<Rightarrow> string list" where
  "py_split s = split_from [] s"

text \<open>
  \<open>xs[j]\<close> on a Python list: a negative \<open>j\<close> counts from the end, and a position
  outside the list raises \<open>IndexError\<close>.
\<close>

definition py_index :: "'a list \<Rightarrow> int \<Rightarrow> error + 'a" where
  "py_index xs j =
     (let pos = (if j < 0 then j + int (length xs) else j)
      in if pos < 0 \<or> int (length xs) \<le> pos then Inl IndexError else Inr (xs ! nat pos))"

subsection \<open>The column dictionary\<close>

text \<open>
  A cell of the table is a register substring or an integer count.  \<open>out_dict\<close> is a
  Python dict from column name to a list of cells; it is kept as an association list in
  insertion order, where \<open>AList.update\<close> is the assignment \<open>d[k] = v\<close> (an existing key
  keeps its place, a new key goes to the end).
\<close>

datatype cell = Str string | Num int

type_synonym out_dict = "(string \<times> cell list) list"

text \<open>Line 21: \<open>{key: [] for key in registers_names + ['$freq']}\<close>.\<close>

definition init_out_dict :: "string list \<Rightarrow> out_dict" where
  "init_out_dict registers_names =
     fold (\<lambda>key. AList.update key []) (registers_names @ [''$freq'']) []"

text \<open>\<open>d[key].append(v)\<close>: the lookup raises \<open>KeyError\<close> on a missing key.\<close>

definition dict_append :: "string \<Rightarrow> cell \<Rightarrow> out_dict \<Rightarrow> error + out_dict" where
  "dict_append key v d =
     (case map_of d key of
        None \<Rightarrow> Inl KeyError
      | Some col \<Rightarrow> Inr (AList.update key (col @ [v]) d))"

text \<open>
  Lines 33-34, the loop over \<open>i\<close> in \<open>range(len(reg_bit_string))\<close>, given as the list
  of the indices still to run.  In \<open>out_dict[registers_names[i]].append(reg_data_list[-1-i])\<close>
  Python evaluates \<open>registers_names[i]\<close>, then the dictionary lookup, then
  \<open>reg_data_list[-1-i]\<close>.
\<close>

fun append_results ::
  "string list \<Rightarrow> string list \<Rightarrow> nat list \<Rightarrow> out_dict \<Rightarrow> error + out_dict" where
  "append_results registers_names reg_data_list [] out = Inr out"
| "append_results registers_names reg_data_list (i # is) out =
     (case py_index registers_names (int i) of
        Inl e \<Rightarrow> Inl e
      | Inr name \<Rightarrow>
          (case map_of out name of
             None \<Rightarrow> Inl KeyError
           | Some col \<Rightarrow>
               (case py_index reg_data_list (- 1 - int i) of
                  Inl e \<Rightarrow> Inl e
                | Inr v \<Rightarrow>
                    append_results registers_names reg_data_list is
                      (AList.update name (col @ [Str v]) out))))"

text \<open>
  Lines 23-36, the loop over the keys of \<open>result_counts\<close>.  The counts dict is given as
  the list of its items in iteration order (the keys of a dict are pairwise distinct), so
  \<open>result_counts[full_bit_string]\<close> is the second component of the item.  Lines 28-30
  copy \<open>reg_bit_string\<close> element by element into \<open>reg_data_list\<close>.
\<close>

fun rows_loop :: "string list \<Rightarrow> (string \<times> int) list \<Rightarrow> out_dict \<Rightarrow> error + out_dict" where
  "rows_loop registers_names [] out = Inr out"
| "rows_loop registers_names ((full_bit_string, freq) # rest) out =
     (let reg_bit_string = py_split full_bit_string;
          reg_data_list = map (\<lambda>i. reg_bit_string ! i) [0..<length reg_bit_string]
      in case append_results registers_names reg_data_list [0..<length reg_bit_string] out of
           Inl e \<Rightarrow> Inl e
         | Inr out1 \<Rightarrow>
             (case dict_append ''$freq'' (Num freq) out1 of
                Inl e \<Rightarrow> Inl e
              | Inr out2 \<Rightarrow> rows_loop registers_names rest out2))"

subsection \<open>The table library\<close>

text \<open>
  A data frame has a row index and named columns.  \<open>DataFrame\<close> builds one from a dict
  of columns and refuses columns of different lengths (\<open>ValueError\<close>); the fresh index is
  \<open>0, 1, ...\<close>.
\<close>

record dataframe =
  index :: "nat list"
  columns :: "(string \<times> cell list) list"

definition DataFrame :: "out_dict \<Rightarrow> error + dataframe" where
  "DataFrame d =
     (let n = (case d of [] \<Rightarrow> 0 | (name, col) # rest \<Rightarrow> length col)
      in if list_all (\<lambda>(name, col). length col = n) d
         then Inr \<lparr>index = [0..<n], columns = d\<rparr>
         else Inl ValueError)"

fun num_of :: "cell \<Rightarrow> int option" where
  "num_of (Num n) = Some n"
| "num_of (Str s) = None"

text \<open>
  \<open>df.sort_values(by, ascending=False)\<close>: the rows are reordered so that the column
  \<open>by\<close> is descending; every column and the index are permuted alike.  A missing column
  is a \<open>KeyError\<close>; a column that holds a string among the integer counts cannot be
  ordered (\<open>TypeError\<close>).  The library's default sort is not stable, so it does not fix
  the order of rows with equal values: \<open>tie\<close> stands for that choice, and rows with equal
  values come out in ascending order of \<open>tie r\<close>, where \<open>r\<close> is the position of the row
  before sorting.  Every order of the rows that is descending in \<open>by\<close> arises from some
  \<open>tie\<close>.
\<close>

definition sort_values_descending ::
  "(nat \<Rightarrow> nat) \<Rightarrow> string \<Rightarrow> dataframe \<Rightarrow> error + dataframe" where
  "sort_values_descending tie by_col df =
     (case map_of (columns df) by_col of
        None \<Rightarrow> Inl KeyError
      | Some col \<Rightarrow>
          (case those (map num_of col) of
             None \<Rightarrow> Inl TypeError
           | Some keys \<Rightarrow>
               (let perm = sort_key (\<lambda>r. - (keys ! r)) (sort_key tie [0..<length keys])
                in Inr \<lparr>index = map (\<lambda>r. index df ! r) perm,
                        columns = map (\<lambda>(name, c). (name, map (\<lambda>r. c ! r) perm)) (columns df)\<rparr>)))"

text \<open>\<open>df.reset_index(drop=True)\<close>: the index becomes \<open>0, 1, ...\<close> again.\<close>

definition reset_index :: "dataframe \<Rightarrow> dataframe" where
  "reset_index df = df\<lparr>index := [0..<length (index df)]\<rparr>"

subsection \<open>The function\<close>

text \<open>
  Lines 9-38.  The first argument is the tie order of the library's sort, see
  \<open>sort_values_descending\<close>; the other two are the arguments of the Python function.
\<close>

definition organize_qiskit_result ::
  "(nat \<Rightarrow> nat) \<Rightarrow> (string \<times> int) list \<Rightarrow> string list \<Rightarrow> error + dataframe" where
  "organize_qiskit_result tie result_counts registers_names =
     (case rows_loop registers_names result_counts (init_out_dict registers_names) of
        Inl e \<Rightarrow> Inl e
      | Inr out \<Rightarrow>
          (case DataFrame out of
             Inl e \<Rightarrow> Inl e
           | Inr df \<Rightarrow>
               (case sort_values_descending tie ''$freq'' df of
                  Inl e \<Rightarrow> Inl e
                | Inr sorted_df \<Rightarrow> Inr (reset_index sorted_df))))"

subsection \<open>Auxiliary notions for the proofs about the formatter\<close>

text \<open>
  \<open>extend_columns g d\<close> appends the cells \<open>g j\<close> to the \<open>j\<close>-th column of \<open>d\<close>, and
  \<open>row_cells n item j\<close> is what one item of the counts contributes to column \<open>j\<close> when
  there are \<open>n\<close> register names: the \<open>j\<close>-th substring from the end for a register
  column, the count for the column after them.  They describe the effect of the loops;
  the function itself does not use them.
\<close>

definition extend_columns :: "(nat \<Rightarrow> cell list) \<Rightarrow> out_dict \<Rightarrow> out_dict" where
  "extend_columns g d = map (\<lambda>j. (fst (d ! j), snd (d ! j) @ g j)) [0..<length d]"

definition row_cells :: "nat \<Rightarrow> string \<times> int \<Rightarrow> nat \<Rightarrow> cell list" where
  "row_cells n item j =
     (if j < length (py_split (fst item)) then [Str (rev (py_split (fst item)) ! j)]
      else if j = n then [Num (snd item)] else [])"

section \<open>The circuit library as the class \<open>GroverAlgorithm\<close> uses it\<close>

text \<open>
  Every register of the program is created with size 1 (lines 46, 57 and 58), so a
  register is its kind and its name, and \<open>reg[0]\<close> is the bit \<open>Bit reg 0\<close>.  Two
  registers are equal when kind and name agree, which is how the library compares them.
\<close>

datatype register = QuantumRegister string | ClassicalRegister string

fun reg_name :: "register \<Rightarrow> string" where
  "reg_name (QuantumRegister name) = name"
| "reg_name (ClassicalRegister name) = name"

fun is_quantum :: "register \<Rightarrow> bool" where
  "is_quantum (QuantumRegister name) = True"
| "is_quantum (ClassicalRegister name) = False"

datatype bit = Bit register nat

datatype instruction =
    HGate bit
  | XGate bit
  | ZGate bit
  | CZGate bit bit
  | MCXGate "bit list" bit
  | Barrier
  | Measure register register

text \<open>
  A circuit is its registers and the ordered sequence of the instructions appended so
  far.
\<close>

record circuit =
  regs :: "register list"
  data :: "instruction list"

definition QuantumCircuit :: circuit where
  "QuantumCircuit = \<lparr>regs = [], data = []\<rparr>"

text \<open>
  \<open>QuantumCircuit.add_register\<close>: the library rejects a register whose name is already
  carried by a quantum or classical register of the circuit (\<open>CircuitError\<close>, "register
  name already exists"); otherwise the register joins the circuit.
\<close>

definition add_register :: "register \<Rightarrow> circuit \<Rightarrow> error + circuit" where
  "add_register r c =
     (if reg_name r \<in> set (map reg_name (regs c)) then Inl CircuitError
      else Inr (c\<lparr>regs := regs c @ [r]\<rparr>))"

text \<open>
  The library checks the arguments of every gate before it appends anything, and raises
  \<open>CircuitError\<close> when a check fails: each qubit argument must be the bit of a quantum
  register of the circuit, and one gate cannot take the same qubit twice.
\<close>

fun qubit_of :: "circuit \<Rightarrow> bit \<Rightarrow> bool" where
  "qubit_of c (Bit r i) = (is_quantum r \<and> r \<in> set (regs c) \<and> i = 0)"

definition circ_gate :: "instruction \<Rightarrow> bit list \<Rightarrow> circuit \<Rightarrow> error + circuit" where
  "circ_gate g qargs c =
     (if list_all (qubit_of c) qargs \<and> distinct qargs then Inr (c\<lparr>data := data c @ [g]\<rparr>)
      else Inl CircuitError)"

definition circ_h :: "bit \<Rightarrow> circuit \<Rightarrow> error + circuit" where
  "circ_h b c = circ_gate (HGate b) [b] c"

definition circ_x :: "bit \<Rightarrow> circuit \<Rightarrow> error + circuit" where
  "circ_x b c = circ_gate (XGate b) [b] c"

definition circ_z :: "bit \<Rightarrow> circuit \<Rightarrow> error + circuit" where
  "circ_z b c = circ_gate (ZGate b) [b] c"

definition circ_cz :: "bit \<Rightarrow> bit \<Rightarrow> circuit \<Rightarrow> error + circuit" where
  "circ_cz ctrl t c = circ_gate (CZGate ctrl t) [ctrl, t] c"

text \<open>\<open>circ.mcx(ctrls, t)\<close>: an empty list of controls is refused as well.\<close>

definition circ_mcx :: "bit list \<Rightarrow> bit \<Rightarrow> circuit \<Rightarrow> error + circuit" where
  "circ_mcx ctrls t c =
     (if ctrls = [] then Inl CircuitError else circ_gate (MCXGate ctrls t) (ctrls @ [t]) c)"

text \<open>
  \<open>circ.x(bits)\<close> with a list of bits appends one X gate per bit, in list order; an empty
  list is refused ("one or more of the arguments are empty").
\<close>

definition circ_x_list :: "bit list \<Rightarrow> circuit \<Rightarrow> error + circuit" where
  "circ_x_list bs c =
     (if bs \<noteq> [] \<and> list_all (qubit_of c) bs then Inr (c\<lparr>data := data c @ map XGate bs\<rparr>)
      else Inl CircuitError)"

text \<open>
  \<open>circ.measure(qreg, creg)\<close> with two registers of size 1: the first must be a quantum
  and the second a classical register of the circuit.
\<close>

definition circ_measure :: "register \<Rightarrow> register \<Rightarrow> circuit \<Rightarrow> error + circuit" where
  "circ_measure q cr c =
     (if is_quantum q \<and> q \<in> set (regs c) \<and> \<not> is_quantum cr \<and> cr \<in> set (regs c)
      then Inr (c\<lparr>data := data c @ [Measure q cr]\<rparr>)
      else Inl CircuitError)"

definition circ_barrier :: "circuit \<Rightarrow> circuit" where
  "circ_barrier c = c\<lparr>data := data c @ [Barrier]\<rparr>"

section \<open>The class \<open>GroverAlgorithm\<close>\<close>

record grover =
  circ :: circuit
  phase_ancilla :: register
  qubits :: "register list"
  clbits :: "register list"
  names :: "string list"

text \<open>
  A concrete search problem is a subclass; each of the three hooks is either overridden
  by a method of the subclass (\<open>Some\<close>) or left as the base class has it (\<open>None\<close>).
\<close>

record search_problem =
  prepare_override :: "(grover \<Rightarrow> error + grover) option"
  build_search_space_override :: "(grover \<Rightarrow> error + grover) option"
  revert_search_space_override :: "(grover \<Rightarrow> error + grover) option"

text \<open>The class \<open>GroverAlgorithm\<close> itself overrides nothing.\<close>

definition GroverAlgorithm :: search_problem where
  "GroverAlgorithm =
     \<lparr>prepare_override = None, build_search_space_override = None,
      revert_search_space_override = None\<rparr>"

text \<open>Lines 66-67, 105-107 and 109-111: the base methods raise.\<close>

definition prepare :: "search_problem \<Rightarrow> grover \<Rightarrow> error + grover" where
  "prepare P st =
     (case prepare_override P of None \<Rightarrow> Inl NotImplementedError | Some method \<Rightarrow> method st)"

definition build_search_space :: "search_problem \<Rightarrow> grover \<Rightarrow> error + grover" where
  "build_search_space P st =
     (case build_search_space_override P of
        None \<Rightarrow> Inl NotImplementedError | Some method \<Rightarrow> method st)"

definition revert_search_space :: "search_problem \<Rightarrow> grover \<Rightarrow> error + grover" where
  "revert_search_space P st =
     (case revert_search_space_override P of
        None \<Rightarrow> Inl NotImplementedError | Some method \<Rightarrow> method st)"

text \<open>Lines 42-53, \<open>__init__\<close>.\<close>

definition init :: "search_problem \<Rightarrow> error + grover" where
  "init P =
     (let pa = QuantumRegister ''phase_ancilla''
      in case add_register pa QuantumCircuit of
           Inl e \<Rightarrow> Inl e
         | Inr c \<Rightarrow>
             (case circ_h (Bit pa 0) c of
                Inl e \<Rightarrow> Inl e
              | Inr c' \<Rightarrow>
                  prepare P \<lparr>circ = c', phase_ancilla = pa,
                             qubits = [], clbits = [], names = []\<rparr>))"

text \<open>
  Lines 55-64, \<open>create_qubit\<close>.  The two registrations with the circuit come first; the
  three lists are extended only when both went through.
\<close>

definition create_qubit :: "string \<Rightarrow> grover \<Rightarrow> error + (register \<times> grover)" where
  "create_qubit label st =
     (let one_qubit_reg = QuantumRegister (''q_'' @ label);
          one_bit_reg = ClassicalRegister (''c_'' @ label)
      in case add_register one_qubit_reg (circ st) of
           Inl e \<Rightarrow> Inl e
         | Inr c1 \<Rightarrow>
             (case add_register one_bit_reg c1 of
                Inl e \<Rightarrow> Inl e
              | Inr c2 \<Rightarrow>
                  Inr (one_qubit_reg,
                       st\<lparr>circ := c2, qubits := qubits st @ [one_qubit_reg],
                          clbits := clbits st @ [one_bit_reg], names := names st @ [label]\<rparr>)))"

text \<open>
  Lines 69-103, the gate helpers.  Each of them calls the circuit of the instance and
  fails when that call does.  The methods \<open>h\<close>, \<open>z\<close> and \<open>x\<close> are named \<open>h_gate\<close>,
  \<open>z_gate\<close> and \<open>x_gate\<close> here, so that the single letters stay free for variables.
\<close>

definition on_circ :: "(circuit \<Rightarrow> error + circuit) \<Rightarrow> grover \<Rightarrow> error + grover" where
  "on_circ f st = (case f (circ st) of Inl e \<Rightarrow> Inl e | Inr c \<Rightarrow> Inr (st\<lparr>circ := c\<rparr>))"

definition h_gate :: "register \<Rightarrow> grover \<Rightarrow> error + grover" where
  "h_gate target_qubit st = on_circ (circ_h (Bit target_qubit 0)) st"

definition z_gate :: "register \<Rightarrow> grover \<Rightarrow> error + grover" where
  "z_gate target_qubit st = on_circ (circ_z (Bit target_qubit 0)) st"

definition cz :: "register \<Rightarrow> register \<Rightarrow> grover \<Rightarrow> error + grover" where
  "cz ctrl_qubit target_qubit st =
     on_circ (circ_cz (Bit ctrl_qubit 0) (Bit target_qubit 0)) st"

definition mcx :: "register list \<Rightarrow> register \<Rightarrow> grover \<Rightarrow> error + grover" where
  "mcx ctrl_qubits target_qubit st =
     on_circ (circ_mcx [Bit qbit 0. qbit \<leftarrow> ctrl_qubits] (Bit target_qubit 0)) st"

definition x_gate :: "register \<Rightarrow> grover \<Rightarrow> error + grover" where
  "x_gate target_qubit st = on_circ (circ_x (Bit target_qubit 0)) st"

definition logic_not :: "register \<Rightarrow> grover \<Rightarrow> error + grover" where
  "logic_not target_qubit st = on_circ (circ_x (Bit target_qubit 0)) st"

definition logic_and :: "register list \<Rightarrow> register \<Rightarrow> grover \<Rightarrow> error + grover" where
  "logic_and operand_qubits target_qubit st =
     on_circ (circ_mcx [Bit qbit 0. qbit \<leftarrow> operand_qubits] (Bit target_qubit 0)) st"

definition logic_or :: "register list \<Rightarrow> register \<Rightarrow> grover \<Rightarrow> error + grover" where
  "logic_or operand_qubits target_qubit st =
     (let operand_bits = [Bit qbit 0. qbit \<leftarrow> operand_qubits]
      in case circ_x_list operand_bits (circ st) of
           Inl e \<Rightarrow> Inl e
         | Inr c1 \<Rightarrow>
             (case circ_mcx operand_bits (Bit target_qubit 0) c1 of
                Inl e \<Rightarrow> Inl e
              | Inr c2 \<Rightarrow>
                  (case circ_x_list operand_bits c2 of
                     Inl e \<Rightarrow> Inl e
                   | Inr c3 \<Rightarrow>
                       (case circ_x (Bit target_qubit 0) c3 of
                          Inl e \<Rightarrow> Inl e
                        | Inr c4 \<Rightarrow> Inr (st\<lparr>circ := c4\<rparr>)))))"

text \<open>
  \<open>add_gates gs st\<close> is the instance \<open>st\<close> with the instructions \<open>gs\<close> at the end of its
  circuit, which is what a gate helper returns when the library accepts its calls.
\<close>

definition add_gates :: "instruction list \<Rightarrow> grover \<Rightarrow> grover" where
  "add_gates gs st = st\<lparr>circ := (circ st)\<lparr>data := data (circ st) @ gs\<rparr>\<rparr>"

text \<open>The quantum and the classical registers of the circuit of an instance.\<close>

definition qubit_register :: "grover \<Rightarrow> register \<Rightarrow> bool" where
  "qubit_register st q \<longleftrightarrow> is_quantum q \<and> q \<in> set (regs (circ st))"

definition clbit_register :: "grover \<Rightarrow> register \<Rightarrow> bool" where
  "clbit_register st c \<longleftrightarrow> \<not> is_quantum c \<and> c \<in> set (regs (circ st))"

text \<open>
  A client of the class calls \<open>create_qubit\<close> and the gate helpers in some order; a run
  of such calls stops at the first exception.
\<close>

datatype call = CreateQubit string | Gates "instruction list"

fun apply_calls :: "call list \<Rightarrow> grover \<Rightarrow> error + grover" where
  "apply_calls [] st = Inr st"
| "apply_calls (CreateQubit label # rest) st =
     (case create_qubit label st of
        Inl e \<Rightarrow> Inl e
      | Inr (reg, st') \<Rightarrow> apply_calls rest st')"
| "apply_calls (Gates gs # rest) st = apply_calls rest (add_gates gs st)"

text \<open>
  What \<open>__init__\<close> and \<open>create_qubit\<close> maintain: the phase ancilla is the register
  named \<open>phase_ancilla\<close>; the lists of qubit and classical registers hold, in the order
  of \<open>names\<close>, the registers \<open>q_<label>\<close> and \<open>c_<label>\<close>; no label occurs twice; and
  all these registers belong to the circuit.
\<close>

definition consistent :: "grover \<Rightarrow> bool" where
  "consistent st \<longleftrightarrow>
     phase_ancilla st = QuantumRegister ''phase_ancilla'' \<and>
     qubits st = map (\<lambda>label. QuantumRegister (''q_'' @ label)) (names st) \<and>
     clbits st = map (\<lambda>label. ClassicalRegister (''c_'' @ label)) (names st) \<and>
     distinct (names st) \<and>
     set (phase_ancilla st # qubits st @ clbits st) \<subseteq> set (regs (circ st))"

fun is_measure :: "instruction \<Rightarrow> bool" where
  "is_measure (Measure q c) = True"
| "is_measure g = False"

text \<open>\<open>self.circ.barrier()\<close>.\<close>

definition barrier :: "grover \<Rightarrow> grover" where
  "barrier st = st\<lparr>circ := circ_barrier (circ st)\<rparr>"

text \<open>
  Lines 125-133 of \<open>build_all\<close>, the operator \<open>2|0><0| - I\<close>.  Line 126 builds the list
  of the bits of all registers other than the target; the lines after it do not read it.
  \<open>x_loop\<close> is the loop \<open>for qbit in self.qubits: self.x(qbit)\<close> of lines 127-128 and
  132-133.
\<close>

definition non_target_qubits :: "register \<Rightarrow> grover \<Rightarrow> bit list" where
  "non_target_qubits target_qubit st = [Bit qbit 0. qbit \<leftarrow> qubits st, qbit \<noteq> target_qubit]"

fun x_loop :: "register list \<Rightarrow> grover \<Rightarrow> error + grover" where
  "x_loop [] st = Inr st"
| "x_loop (qbit # rest) st =
     (case x_gate qbit st of Inl e \<Rightarrow> Inl e | Inr st' \<Rightarrow> x_loop rest st')"

definition diffusion :: "register \<Rightarrow> grover \<Rightarrow> error + grover" where
  "diffusion target_qubit st =
     (let non_target = non_target_qubits target_qubit st
      in case x_loop (qubits st) st of
           Inl e \<Rightarrow> Inl e
         | Inr st1 \<Rightarrow>
             (case z_gate (phase_ancilla st1) st1 of
                Inl e \<Rightarrow> Inl e
              | Inr st2 \<Rightarrow>
                  (case mcx (qubits st2) (phase_ancilla st2) st2 of
                     Inl e \<Rightarrow> Inl e
                   | Inr st3 \<Rightarrow>
                       (case z_gate (phase_ancilla st3) st3 of
                          Inl e \<Rightarrow> Inl e
                        | Inr st4 \<Rightarrow> x_loop (qubits st4) st4))))"

text \<open>Lines 116-133, the body of the loop over \<open>range(n_iterations)\<close>.\<close>

definition grover_iteration :: "search_problem \<Rightarrow> register \<Rightarrow> grover \<Rightarrow> error + grover" where
  "grover_iteration P target_qubit st =
     (case build_search_space P (barrier st) of
        Inl e \<Rightarrow> Inl e
      | Inr st1 \<Rightarrow>
          (let st2 = barrier st1
           in case cz target_qubit (phase_ancilla st2) st2 of
                Inl e \<Rightarrow> Inl e
              | Inr st3 \<Rightarrow>
                  (case revert_search_space P (barrier st3) of
                     Inl e \<Rightarrow> Inl e
                   | Inr st4 \<Rightarrow> diffusion target_qubit (barrier st4))))"

fun iterations :: "nat \<Rightarrow> search_problem \<Rightarrow> register \<Rightarrow> grover \<Rightarrow> error + grover" where
  "iterations 0 P target_qubit st = Inr st"
| "iterations (Suc k) P target_qubit st =
     (case grover_iteration P target_qubit st of
        Inl e \<Rightarrow> Inl e
      | Inr st' \<Rightarrow> iterations k P target_qubit st')"

text \<open>
  Lines 139-140, the loop over \<open>i\<close> in \<open>range(len(self.names))\<close>; reading
  \<open>self.qubits[i]\<close> or \<open>self.clbits[i]\<close> past the end raises \<open>IndexError\<close>.
\<close>

fun measure_loop :: "nat list \<Rightarrow> grover \<Rightarrow> error + grover" where
  "measure_loop [] st = Inr st"
| "measure_loop (i # is) st =
     (case py_index (qubits st) (int i) of
        Inl e \<Rightarrow> Inl e
      | Inr q \<Rightarrow>
          (case py_index (clbits st) (int i) of
             Inl e \<Rightarrow> Inl e
           | Inr c \<Rightarrow>
               (case on_circ (circ_measure q c) st of
                  Inl e \<Rightarrow> Inl e
                | Inr st' \<Rightarrow> measure_loop is st')))"

text \<open>
  Lines 113-140, \<open>build_all\<close>.  \<open>range(n_iterations)\<close> is empty for a negative
  \<open>n_iterations\<close>, hence \<open>nat n_iterations\<close> rounds.
\<close>

definition build_all :: "search_problem \<Rightarrow> register \<Rightarrow> int \<Rightarrow> grover \<Rightarrow> error + grover" where
  "build_all P target_qubit n_iterations st =
     (case iterations (nat n_iterations) P target_qubit st of
        Inl e \<Rightarrow> Inl e
      | Inr st1 \<Rightarrow>
          (case build_search_space P (barrier st1) of
             Inl e \<Rightarrow> Inl e
           | Inr st2 \<Rightarrow>
               (let st3 = barrier st2
                in measure_loop [0..<length (names st3)] st3)))"

section \<open>Gates on computational basis states\<close>

text \<open>
  On a basis state, where every bit has a truth value, the X gate negates its bit and the
  multi-controlled X gate negates its target exactly when all controls are true; a
  barrier does nothing.  The other instructions are not permutations of basis states and
  have no action here.
\<close>

fun gate_action :: "instruction \<Rightarrow> (bit \<Rightarrow> bool) \<Rightarrow> (bit \<Rightarrow> bool) option" where
  "gate_action (XGate b) v = Some (v(b := \<not> v b))"
| "gate_action (MCXGate cs t) v = Some (if list_all v cs then v(t := \<not> v t) else v)"
| "gate_action Barrier v = Some v"
| "gate_action (HGate b) v = None"
| "gate_action (ZGate b) v = None"
| "gate_action (CZGate c t) v = None"
| "gate_action (Measure q c) v = None"

fun run_gates :: "instruction list \<Rightarrow> (bit \<Rightarrow> bool) \<Rightarrow> (bit \<Rightarrow> bool) option" where
  "run_gates [] v = Some v"
| "run_gates (g # gs) v =
     (case gate_action g v of None \<Rightarrow> None | Some v' \<Rightarrow> run_gates gs v')"

text \<open>The instructions a method call has added to the circuit of \<open>st\<close>.\<close>

definition appended :: "grover \<Rightarrow> grover \<Rightarrow> instruction list" where
  "appended st st' = drop (length (data (circ st))) (data (circ st'))"

section \<open>Sample search problems\<close>

text \<open>
  A small subclass, used for the concrete instances of the theorems below: \<open>prepare\<close>
  creates the qubits \<open>a\<close> and \<open>t\<close>; \<open>build_search_space\<close> puts \<open>a\<close> in superposition
  and copies it to \<open>t\<close> with \<open>logic_and\<close>; \<open>revert_search_space\<close> undoes both in
  reverse order.  \<open>sample_instance\<close> is the object its constructor returns, and
  \<open>three_qubit_instance\<close> the object of a subclass whose \<open>prepare\<close> creates the qubits
  \<open>a\<close>, \<open>b\<close> and \<open>t\<close>.
\<close>

definition sample_prepare :: "grover \<Rightarrow> error + grover" where
  "sample_prepare st =
     (case create_qubit ''a'' st of
        Inl e \<Rightarrow> Inl e
      | Inr (a, st1) \<Rightarrow>
          (case create_qubit ''t'' st1 of Inl e \<Rightarrow> Inl e | Inr (t, st2) \<Rightarrow> Inr st2))"

definition sample_build :: "grover \<Rightarrow> error + grover" where
  "sample_build st =
     (case h_gate (QuantumRegister ''q_a'') st of
        Inl e \<Rightarrow> Inl e
      | Inr st1 \<Rightarrow> logic_and [QuantumRegister ''q_a''] (QuantumRegister ''q_t'') st1)"

definition sample_revert :: "grover \<Rightarrow> error + grover" where
  "sample_revert st =
     (case logic_and [QuantumRegister ''q_a''] (QuantumRegister ''q_t'') st of
        Inl e \<Rightarrow> Inl e
      | Inr st1 \<Rightarrow> h_gate (QuantumRegister ''q_a'') st1)"

definition sample_problem :: search_problem where
  "sample_problem =
     \<lparr>prepare_override = Some sample_prepare,
      build_search_space_override = Some sample_build,
      revert_search_space_override = Some sample_revert\<rparr>"

definition sample_instance :: grover where
  "sample_instance =
     \<lparr>circ = \<lparr>regs = [QuantumRegister ''phase_ancilla'',
                      QuantumRegister ''q_a'', ClassicalRegister ''c_a'',
                      QuantumRegister ''q_t'', ClassicalRegister ''c_t''],
              data = [HGate (Bit (QuantumRegister ''phase_ancilla'') 0)]\<rparr>,
      phase_ancilla = QuantumRegister ''phase_ancilla'',
      qubits = [QuantumRegister ''q_a'', QuantumRegister ''q_t''],
      clbits = [ClassicalRegister ''c_a'', ClassicalRegister ''c_t''],
      names = [''a'', ''t'']\<rparr>"

definition three_qubit_instance :: grover where
  "three_qubit_instance =
     \<lparr>circ = \<lparr>regs = [QuantumRegister ''phase_ancilla'',
                      QuantumRegister ''q_a'', ClassicalRegister ''c_a'',
                      QuantumRegister ''q_b'', ClassicalRegister ''c_b'',
                      QuantumRegister ''q_t'', ClassicalRegister ''c_t''],
              data = [HGate (Bit (QuantumRegister ''phase_ancilla'') 0)]\<rparr>,
      phase_ancilla = QuantumRegister ''phase_ancilla'',
      qubits = [QuantumRegister ''q_a'', QuantumRegister ''q_b'', QuantumRegister ''q_t''],
      clbits = [ClassicalRegister ''c_a'', ClassicalRegister ''c_b'', ClassicalRegister ''c_t''],
      names = [''a'', ''b'', ''t'']\<rparr>"

section \<open>Properties of the formatter\<close>

subsection \<open>The effect of the loops on the column dictionary\<close>

lemma length_extend_columns [simp]: "length (extend_columns g d) = length d"
  by (simp add: extend_columns_def)

lemma nth_extend_columns [simp]: "j < length d \<Longrightarrow> extend_columns g d ! j = (fst (d ! j), snd (d ! j) @ g j)"
  by (simp add: extend_columns_def)

lemma keys_extend_columns [simp]: "map fst (extend_columns g d) = map fst d"
  by (rule nth_equalityI) simp_all

lemma extend_columns_nil: "extend_columns (\<lambda>j. []) d = d"
  by (rule nth_equalityI) simp_all

lemma extend_columns_twice: "extend_columns g (extend_columns h d) = extend_columns (\<lambda>j. h j @ g j) d"
  by (rule nth_equalityI) simp_all

lemma extend_columns_cong: "(\<And>j. j < length d \<Longrightarrow> g j = h j) \<Longrightarrow> extend_columns g d = extend_columns h d"
  by (rule nth_equalityI) simp_all

lemma update_at:
  "distinct (map fst d) \<Longrightarrow> j < length d \<Longrightarrow>
   AList.update (fst (d ! j)) v d = d[j := (fst (d ! j), v)]"
proof (induction d arbitrary: j)
  case Nil
  then show ?case by simp
next
  case (Cons p ps)
  show ?case
  proof (cases j)
    case 0
    then show ?thesis by simp
  next
    case (Suc m)
    with Cons.prems have m: "m < length ps" and d: "distinct (map fst ps)"
      and "fst p \<notin> fst ` set ps" by auto
    then have "fst p \<noteq> fst (ps ! m)" by (metis image_eqI nth_mem)
    with Cons.IH [OF d m] Suc show ?thesis by simp
  qed
qed

lemma map_of_at:
  "distinct (map fst d) \<Longrightarrow> j < length d \<Longrightarrow> map_of d (fst (d ! j)) = Some (snd (d ! j))"
  by simp

lemma update_extend_columns:
  assumes "distinct (map fst d)" "i < length d"
  shows "AList.update (fst (d ! i)) (snd (d ! i) @ [v]) d = extend_columns (\<lambda>j. if j = i then [v] else []) d"
proof -
  have "d[i := (fst (d ! i), snd (d ! i) @ [v])] = extend_columns (\<lambda>j. if j = i then [v] else []) d"
    by (rule nth_equalityI) (simp_all add: nth_list_update)
  with update_at [OF assms] show ?thesis by simp
qed

lemma py_index_nat: "i < length xs \<Longrightarrow> py_index xs (int i) = Inr (xs ! i)"
  by (simp add: py_index_def)

lemma py_index_past: "length xs \<le> i \<Longrightarrow> py_index xs (int i) = Inl IndexError"
  by (simp add: py_index_def)

lemma py_index_from_end:
  "i < length xs \<Longrightarrow> py_index xs (- 1 - int i) = Inr (rev xs ! i)"
proof -
  assume a: "i < length xs"
  then have "nat (- 1 - int i + int (length xs)) = length xs - Suc i" by linarith
  with a show ?thesis by (simp add: py_index_def rev_nth)
qed

lemma py_index_error: "py_index xs j = Inl e \<Longrightarrow> e = IndexError"
  by (simp add: py_index_def Let_def split: if_splits)

lemma split_from_nonempty: "split_from piece s \<noteq> []"
  by (induction s arbitrary: piece) simp_all

lemma py_split_length: "0 < length (py_split s)"
  by (simp add: py_split_def split_from_nonempty)

lemma append_results_extend:
  assumes "distinct (map fst out)" "map fst out = reg_names @ [fq]"
    "length pieces \<le> length reg_names" "i \<le> length pieces"
  shows "append_results reg_names pieces [i..<length pieces] out =
         Inr (extend_columns (\<lambda>j. if i \<le> j \<and> j < length pieces then [Str (rev pieces ! j)] else []) out)"
  using assms
proof (induction "length pieces - i" arbitrary: i out)
  case 0
  then have "i = length pieces" by simp
  moreover have "extend_columns (\<lambda>j. if length pieces \<le> j \<and> j < length pieces then [Str (rev pieces ! j)] else []) out
     = extend_columns (\<lambda>j. []) out"
    by (intro extend_columns_cong) auto
  ultimately show ?case by (simp add: extend_columns_nil)
next
  case (Suc m)
  then have i: "i < length pieces" by simp
  with Suc.prems have iN: "i < length reg_names" and iO: "i < length out"
    by (simp_all, metis length_map length_append_singleton less_Suc_eq less_le_trans)
  have key: "fst (out ! i) = reg_names ! i"
    using Suc.prems(2) iN iO by (metis nth_append nth_map)
  let ?out1 = "extend_columns (\<lambda>j. if j = i then [Str (rev pieces ! i)] else []) out"
  have up: "AList.update (reg_names ! i) (snd (out ! i) @ [Str (rev pieces ! i)]) out = ?out1"
    using update_extend_columns [OF Suc.prems(1) iO] key by simp
  have lk: "map_of out (reg_names ! i) = Some (snd (out ! i))"
    using map_of_at [OF Suc.prems(1) iO] key by simp
  have m: "m = length pieces - Suc i" using Suc.hyps(2) by simp
  have ih: "append_results reg_names pieces [Suc i..<length pieces] ?out1 =
     Inr (extend_columns (\<lambda>j. if Suc i \<le> j \<and> j < length pieces then [Str (rev pieces ! j)] else []) ?out1)"
    using Suc.hyps(1) [OF m, of ?out1] Suc.prems i by simp
  have "[i..<length pieces] = i # [Suc i..<length pieces]" using i by (simp add: upt_conv_Cons)
  then have "append_results reg_names pieces [i..<length pieces] out =
      append_results reg_names pieces [Suc i..<length pieces] ?out1"
    using iN i lk up by (simp add: py_index_nat py_index_from_end)
  also note ih
  also have "extend_columns (\<lambda>j. if Suc i \<le> j \<and> j < length pieces then [Str (rev pieces ! j)] else []) ?out1
     = extend_columns (\<lambda>j. if i \<le> j \<and> j < length pieces then [Str (rev pieces ! j)] else []) out"
    unfolding extend_columns_twice using i by (intro extend_columns_cong) auto
  finally show ?case .
qed

lemma one_row:
  assumes d: "distinct (map fst out)" and k: "map fst out = reg_names @ [''$freq'']"
    and p: "length (py_split key) \<le> length reg_names"
  shows "\<exists>out1. append_results reg_names (map (\<lambda>i. py_split key ! i) [0..<length (py_split key)])
            [0..<length (py_split key)] out = Inr out1 \<and>
          dict_append ''$freq'' (Num freq) out1 =
            Inr (extend_columns (row_cells (length reg_names) (key, freq)) out)"
proof -
  let ?parts = "py_split key"
  let ?n = "length reg_names"
  let ?out1 = "extend_columns (\<lambda>j. if 0 \<le> j \<and> j < length ?parts then [Str (rev ?parts ! j)] else []) out"
  have copy: "map (\<lambda>i. ?parts ! i) [0..<length ?parts] = ?parts" by (rule map_nth)
  have a: "append_results reg_names ?parts [0..<length ?parts] out = Inr ?out1"
    using append_results_extend [OF d k p, of 0] by simp
  have len: "length out = Suc ?n" using k by (metis length_map length_append_singleton)
  have n1: "?n < length ?out1" using len by simp
  have d1: "distinct (map fst ?out1)" using d by simp
  have "fst (out ! ?n) = ''$freq''" using k len by (metis lessI nth_append_length nth_map)
  then have f1: "fst (?out1 ! ?n) = ''$freq''" using len by simp
  have lk: "map_of ?out1 ''$freq'' = Some (snd (?out1 ! ?n))"
    using map_of_at [OF d1 n1] f1 by simp
  have up: "AList.update ''$freq'' (snd (?out1 ! ?n) @ [Num freq]) ?out1 =
      extend_columns (\<lambda>j. if j = ?n then [Num freq] else []) ?out1"
    using update_extend_columns [OF d1 n1] f1 by simp
  have "extend_columns (\<lambda>j. if j = ?n then [Num freq] else []) ?out1 =
      extend_columns (row_cells ?n (key, freq)) out"
    unfolding extend_columns_twice using p by (intro extend_columns_cong) (auto simp: row_cells_def)
  with lk up have "dict_append ''$freq'' (Num freq) ?out1 =
      Inr (extend_columns (row_cells ?n (key, freq)) out)"
    by (simp add: dict_append_def)
  with a copy show ?thesis by simp
qed

lemma rows_loop_extend:
  assumes "distinct (map fst out)" "map fst out = reg_names @ [''$freq'']"
    "\<forall>item \<in> set cs. length (py_split (fst item)) \<le> length reg_names"
  shows "rows_loop reg_names cs out =
         Inr (extend_columns (\<lambda>j. concat (map (\<lambda>item. row_cells (length reg_names) item j) cs)) out)"
  using assms
proof (induction cs arbitrary: out)
  case Nil
  then show ?case by (simp add: extend_columns_nil)
next
  case (Cons item cs)
  obtain key freq where item: "item = (key, freq)" by (cases item)
  let ?out2 = "extend_columns (row_cells (length reg_names) (key, freq)) out"
  from Cons.prems item have p: "length (py_split key) \<le> length reg_names" by simp
  from one_row [OF Cons.prems(1,2) p, of freq]
  have step: "rows_loop reg_names (item # cs) out = rows_loop reg_names cs ?out2"
    unfolding item by (auto simp: Let_def)
  have "rows_loop reg_names cs ?out2 =
      Inr (extend_columns (\<lambda>j. concat (map (\<lambda>item. row_cells (length reg_names) item j) cs)) ?out2)"
    using Cons.IH [of ?out2] Cons.prems by simp
  with step show ?case by (simp add: extend_columns_twice item)
qed

lemma update_fresh: "k \<notin> fst ` set d \<Longrightarrow> AList.update k v d = d @ [(k, v)]"
  by (induction d) auto

lemma fold_update_fresh:
  "distinct ks \<Longrightarrow> set ks \<inter> fst ` set d = {} \<Longrightarrow>
   fold (\<lambda>key. AList.update key []) ks d = d @ map (\<lambda>k. (k, [])) ks"
proof (induction ks arbitrary: d)
  case Nil
  then show ?case by simp
next
  case (Cons k ks)
  then have "k \<notin> fst ` set d" by auto
  then have u: "AList.update k [] d = d @ [(k, [])]" by (rule update_fresh)
  have "set ks \<inter> fst ` set (d @ [(k, [])]) = {}" using Cons.prems by auto
  with Cons.IH [of "d @ [(k, [])]"] Cons.prems u show ?case by simp
qed

lemma init_out_dict_distinct:
  "distinct (reg_names @ [''$freq'']) \<Longrightarrow> init_out_dict reg_names = map (\<lambda>k. (k, [])) (reg_names @ [''$freq''])"
  using fold_update_fresh [of "reg_names @ [''$freq'']" "[]"] by (simp add: init_out_dict_def)

lemma keys_fold_update:
  "fst ` set (fold (\<lambda>key. AList.update key []) ks d) = set ks \<union> fst ` set d"
  by (induction ks arbitrary: d) (auto simp: dom_update)

lemma distinct_fold_update:
  "distinct (map fst d) \<Longrightarrow> distinct (map fst (fold (\<lambda>key. AList.update key []) ks d))"
  by (induction ks arbitrary: d) (simp_all add: distinct_update)

lemma init_out_dict_keys: "fst ` set (init_out_dict reg_names) = set reg_names \<union> {''$freq''}"
  using keys_fold_update [of "reg_names @ [''$freq'']" "[]"] by (simp add: init_out_dict_def)

lemma init_out_dict_keys_distinct: "distinct (map fst (init_out_dict reg_names))"
  using distinct_fold_update [of "[]" "reg_names @ [''$freq'']"] by (simp add: init_out_dict_def)

lemma append_results_outcome:
  assumes "set reg_names \<subseteq> fst ` set out"
  shows "append_results reg_names pieces is out = Inl IndexError \<or>
         (\<exists>out'. append_results reg_names pieces is out = Inr out' \<and> map fst out' = map fst out \<and>
                 (\<forall>i \<in> set is. i < length reg_names))"
  using assms
proof (induction "is" arbitrary: out)
  case Nil
  then show ?case by simp
next
  case (Cons i "is")
  show ?case
  proof (cases "i < length reg_names")
    case False
    then show ?thesis by (simp add: py_index_past)
  next
    case True
    then have "reg_names ! i \<in> fst ` set out" using Cons.prems by auto
    then obtain col where col: "map_of out (reg_names ! i) = Some col"
      by (metis domD dom_map_of_conv_image_fst)
    show ?thesis
    proof (cases "py_index pieces (- 1 - int i)")
      case (Inl e)
      then have "e = IndexError" by (rule py_index_error)
      with Inl True col show ?thesis by (simp add: py_index_nat)
    next
      case (Inr v)
      let ?out1 = "AList.update (reg_names ! i) (col @ [Str v]) out"
      have k: "map fst ?out1 = map fst out"
        using \<open>reg_names ! i \<in> fst ` set out\<close> by (simp add: update_keys)
      then have "set reg_names \<subseteq> fst ` set ?out1" using Cons.prems by (metis set_map)
      from Cons.IH [OF this] Inr True col k show ?thesis
        by (auto simp: py_index_nat)
    qed
  qed
qed

lemma rows_loop_outcome:
  assumes "set reg_names \<subseteq> fst ` set out" "''$freq'' \<in> fst ` set out"
  shows "rows_loop reg_names cs out = Inl IndexError \<or>
         (\<exists>out'. rows_loop reg_names cs out = Inr out' \<and> map fst out' = map fst out \<and>
                 (\<forall>item \<in> set cs. length (py_split (fst item)) \<le> length reg_names))"
  using assms
proof (induction cs arbitrary: out)
  case Nil
  then show ?case by simp
next
  case (Cons item cs)
  obtain key freq where item: "item = (key, freq)" by (cases item)
  let ?parts = "py_split key"
  let ?pieces = "map (\<lambda>i. ?parts ! i) [0..<length ?parts]"
  from append_results_outcome [OF Cons.prems(1), of ?pieces "[0..<length ?parts]"]
  show ?case
  proof
    assume "append_results reg_names ?pieces [0..<length ?parts] out = Inl IndexError"
    then show ?thesis by (simp add: item Let_def)
  next
    assume "\<exists>out'. append_results reg_names ?pieces [0..<length ?parts] out = Inr out' \<and>
        map fst out' = map fst out \<and> (\<forall>i \<in> set [0..<length ?parts]. i < length reg_names)"
    then obtain out1 where a: "append_results reg_names ?pieces [0..<length ?parts] out = Inr out1"
      and k: "map fst out1 = map fst out" and b: "\<forall>i < length ?parts. i < length reg_names"
      by auto
    from b have le: "length ?parts \<le> length reg_names" by (meson not_le_imp_less order.strict_implies_not_eq less_irrefl)
    have inj: "fst ` set out1 = fst ` set out" using k by (metis set_map)
    then obtain col where col: "map_of out1 ''$freq'' = Some col"
      using Cons.prems(2) by (metis domD dom_map_of_conv_image_fst)
    let ?out2 = "AList.update ''$freq'' (col @ [Num freq]) out1"
    have k2: "map fst ?out2 = map fst out"
      using inj Cons.prems(2) k by (simp add: update_keys)
    then have "fst ` set ?out2 = fst ` set out" by (metis set_map)
    then have "set reg_names \<subseteq> fst ` set ?out2" "''$freq'' \<in> fst ` set ?out2"
      using Cons.prems by auto
    from Cons.IH [OF this] a col le k2 show ?thesis
      by (auto simp: item Let_def dict_append_def)
  qed
qed

lemma rows_loop_too_many:
  assumes "set reg_names \<subseteq> fst ` set out" "''$freq'' \<in> fst ` set out"
    "(key, freq) \<in> set cs" "length reg_names < length (py_split key)"
  shows "rows_loop reg_names cs out = Inl IndexError"
  using rows_loop_outcome [OF assms(1,2), of cs] assms(3,4) by fastforce

lemma filter_all_length: "length (filter P xs) = length xs \<Longrightarrow> \<forall>x \<in> set xs. P x"
proof -
  assume a: "length (filter P xs) = length xs"
  have "length (filter P xs) + length (filter (\<lambda>x. \<not> P x) xs) = length xs"
    by (rule sum_length_filter_compl)
  with a have "filter (\<lambda>x. \<not> P x) xs = []" by simp
  then show ?thesis by (simp add: filter_empty_conv)
qed

lemma those_nums: "those (map num_of (map (\<lambda>item. Num (f item)) cs)) = Some (map f cs)"
  by (induction cs) simp_all

lemma reg_column_cells:
  "\<forall>item \<in> set cs. length (py_split (fst item)) = n \<Longrightarrow> j < n \<Longrightarrow>
   concat (map (\<lambda>item. row_cells n item j) cs) =
   map (\<lambda>item. Str (rev (py_split (fst item)) ! j)) cs"
  by (induction cs) (simp_all add: row_cells_def)

lemma freq_column_cells:
  "\<forall>item \<in> set cs. length (py_split (fst item)) \<le> n \<Longrightarrow>
   concat (map (\<lambda>item. row_cells n item n) cs) = map (\<lambda>item. Num (snd item)) cs"
  by (induction cs) (simp_all add: row_cells_def)

lemma column_cells_length:
  "length (concat (map (\<lambda>item. row_cells n item j) cs)) =
   length (filter (\<lambda>item. j < length (py_split (fst item)) \<or> j = n) cs)"
  by (induction cs) (simp_all add: row_cells_def)

lemma rows_loop_exact:
  assumes d: "distinct (reg_names @ [''$freq''])"
    and p: "\<forall>item \<in> set cs. length (py_split (fst item)) = length reg_names"
  shows "rows_loop reg_names cs (init_out_dict reg_names) =
     Inr (map (\<lambda>j. (reg_names ! j, map (\<lambda>item. Str (rev (py_split (fst item)) ! j)) cs))
            [0..<length reg_names] @
          [(''$freq'', map (\<lambda>item. Num (snd item)) cs)])"
proof -
  let ?K = "reg_names @ [''$freq'']"
  let ?init = "map (\<lambda>k. (k, [] :: cell list)) ?K"
  let ?n = "length reg_names"
  let ?G = "\<lambda>j. concat (map (\<lambda>item. row_cells ?n item j) cs)"
  have init: "init_out_dict reg_names = ?init" using d by (rule init_out_dict_distinct)
  have keys: "map fst ?init = ?K" by (simp add: comp_def)
  have dk: "distinct (map fst ?init)" unfolding keys using d .
  have le: "\<forall>item \<in> set cs. length (py_split (fst item)) \<le> ?n" using p by simp
  have run: "rows_loop reg_names cs ?init = Inr (extend_columns ?G ?init)"
    using rows_loop_extend [OF dk keys le] .
  have "extend_columns ?G ?init =
      map (\<lambda>j. (reg_names ! j, map (\<lambda>item. Str (rev (py_split (fst item)) ! j)) cs)) [0..<?n] @
      [(''$freq'', map (\<lambda>item. Num (snd item)) cs)]" (is "?L = ?R")
  proof (rule nth_equalityI)
    show "length ?L = length ?R" by simp
  next
    fix j assume "j < length ?L"
    then have j: "j < Suc ?n" by simp
    show "?L ! j = ?R ! j"
    proof (cases "j < ?n")
      case True
      then have "?L ! j = (reg_names ! j, ?G j)" by (simp add: nth_append)
      also have "?G j = map (\<lambda>item. Str (rev (py_split (fst item)) ! j)) cs"
        using reg_column_cells [OF p True] .
      finally show ?thesis using True by (simp add: nth_append)
    next
      case False
      with j have jn: "j = ?n" by simp
      have "?L ! ?n = (''$freq'', ?G ?n)" by (simp add: nth_append)
      also have "?G ?n = map (\<lambda>item. Num (snd item)) cs"
        using freq_column_cells [OF le] .
      finally show ?thesis using jn by (simp add: nth_append)
    qed
  qed
  with run init show ?thesis by simp
qed

lemma DataFrame_uniform:
  "d \<noteq> [] \<Longrightarrow> \<forall>c \<in> set d. length (snd c) = m \<Longrightarrow>
   DataFrame d = Inr \<lparr>index = [0..<m], columns = d\<rparr>"
  by (cases d) (auto simp: DataFrame_def Let_def list_all_iff split: prod.splits)

lemma permuted_column:
  "set perm \<subseteq> {0..<length cs} \<Longrightarrow>
   map (\<lambda>r. map g cs ! r) perm = map (\<lambda>r. g (cs ! r)) perm"
  by (rule map_cong) auto

lemma organize_result:
  assumes d: "distinct (reg_names @ [''$freq''])"
    and p: "\<forall>item \<in> set cs. length (py_split (fst item)) = length reg_names"
  shows "organize_qiskit_result tie cs reg_names =
     Inr \<lparr>index = [0..<length cs],
          columns =
            map (\<lambda>j. (reg_names ! j,
                      map (\<lambda>r. Str (rev (py_split (fst (cs ! r))) ! j))
                        (sort_key (\<lambda>r. - (map snd cs ! r)) (sort_key tie [0..<length cs]))))
              [0..<length reg_names] @
            [(''$freq'', map (\<lambda>r. Num (snd (cs ! r)))
                          (sort_key (\<lambda>r. - (map snd cs ! r)) (sort_key tie [0..<length cs])))]\<rparr>"
proof -
  let ?n = "length reg_names"
  let ?regs = "map (\<lambda>j. (reg_names ! j, map (\<lambda>item. Str (rev (py_split (fst item)) ! j)) cs))
                 [0..<?n]"
  let ?fcol = "map (\<lambda>item. Num (snd item)) cs"
  let ?out = "?regs @ [(''$freq'', ?fcol)]"
  let ?perm = "sort_key (\<lambda>r. - (map snd cs ! r)) (sort_key tie [0..<length cs])"
  have loop: "rows_loop reg_names cs (init_out_dict reg_names) = Inr ?out"
    using rows_loop_exact [OF d p] .
  have frame: "DataFrame ?out = Inr \<lparr>index = [0..<length cs], columns = ?out\<rparr>"
    by (rule DataFrame_uniform) auto
  have "map fst ?regs = map (\<lambda>j. reg_names ! j) [0..<?n]" by (simp add: comp_def)
  then have kregs: "map fst ?regs = reg_names" by (simp add: map_nth)
  then have dk: "distinct (map fst ?out)" using d by simp
  have lk: "map_of ?out ''$freq'' = Some ?fcol"
    using map_of_eq_Some_iff [OF dk, of "''$freq''" ?fcol] by simp
  have keys: "those (map num_of ?fcol) = Some (map snd cs)" by (rule those_nums)
  have perm: "sort_key (\<lambda>r. - (map snd cs ! r)) (sort_key tie [0..<length (map snd cs)]) = ?perm"
    by simp
  have sub: "set ?perm \<subseteq> {0..<length cs}" by simp
  have fperm: "map (\<lambda>r. ?fcol ! r) ?perm = map (\<lambda>r. Num (snd (cs ! r))) ?perm"
    using permuted_column [OF sub] .
  have rperm: "map (\<lambda>(name, c). (name, map (\<lambda>r. c ! r) ?perm)) ?regs =
      map (\<lambda>j. (reg_names ! j, map (\<lambda>r. Str (rev (py_split (fst (cs ! r))) ! j)) ?perm)) [0..<?n]"
    using permuted_column [OF sub] by simp
  have sorted_df: "sort_values_descending tie ''$freq'' \<lparr>index = [0..<length cs], columns = ?out\<rparr> =
      Inr \<lparr>index = map (\<lambda>r. [0..<length cs] ! r) ?perm,
           columns = map (\<lambda>j. (reg_names ! j, map (\<lambda>r. Str (rev (py_split (fst (cs ! r))) ! j)) ?perm))
                       [0..<?n] @
                     [(''$freq'', map (\<lambda>r. Num (snd (cs ! r))) ?perm)]\<rparr>"
    unfolding sort_values_descending_def using lk keys perm fperm rperm
    by (simp add: Let_def)
  show ?thesis
    unfolding organize_qiskit_result_def using loop frame sorted_df
    by (simp add: reset_index_def)
qed

lemma DataFrame_columns: "DataFrame d = Inr df \<Longrightarrow> columns df = d"
  by (auto simp: DataFrame_def Let_def split: if_splits)

lemma DataFrame_lengths:
  "DataFrame d = Inr df \<Longrightarrow> c \<in> set d \<Longrightarrow> c' \<in> set d \<Longrightarrow> length (snd c) = length (snd c')"
  by (auto simp: DataFrame_def Let_def list_all_iff case_prod_unfold split: if_splits)

lemma sort_values_keys:
  "sort_values_descending tie by_col df = Inr df' \<Longrightarrow> map fst (columns df') = map fst (columns df)"
  by (auto simp: sort_values_descending_def Let_def comp_def case_prod_unfold
           split: option.splits)

lemma organize_well_formed_lengths:
  assumes ok: "organize_qiskit_result tie cs reg_names = Inr df"
    and cols: "map fst (columns df) = reg_names @ [''$freq'']"
    and mem: "(key, freq) \<in> set cs"
  shows "length (py_split key) = length reg_names"
proof -
  let ?n = "length reg_names"
  let ?init = "init_out_dict reg_names"
  let ?G = "\<lambda>j. concat (map (\<lambda>item. row_cells ?n item j) cs)"
  from ok obtain out df0 df1 where loop: "rows_loop reg_names cs ?init = Inr out"
    and frame: "DataFrame out = Inr df0"
    and srt: "sort_values_descending tie ''$freq'' df0 = Inr df1"
    and df: "df = reset_index df1"
    by (auto simp: organize_qiskit_result_def split: sum.splits)
  have "map fst (columns df) = map fst out"
    using df sort_values_keys [OF srt] DataFrame_columns [OF frame]
    by (simp add: reset_index_def)
  with cols have kout: "map fst out = reg_names @ [''$freq'']" by simp
  have sub: "set reg_names \<subseteq> fst ` set ?init" "''$freq'' \<in> fst ` set ?init"
    by (auto simp: init_out_dict_keys)
  from rows_loop_outcome [OF sub, of cs] loop
  have kinit: "map fst out = map fst ?init"
    and le: "\<forall>item \<in> set cs. length (py_split (fst item)) \<le> ?n"
    by auto
  have d: "distinct (reg_names @ [''$freq''])"
    using init_out_dict_keys_distinct [of reg_names] kinit kout by simp
  have dk: "distinct (map fst ?init)" by (rule init_out_dict_keys_distinct)
  have ki: "map fst ?init = reg_names @ [''$freq'']" using kinit kout by simp
  have out: "out = extend_columns ?G ?init"
    using rows_loop_extend [OF dk ki le] loop by simp
  have len: "length ?init = Suc ?n" using ki by (metis length_map length_append_singleton)
  have init_col: "\<And>j. j < Suc ?n \<Longrightarrow> snd (?init ! j) = []"
    using init_out_dict_distinct [OF d] by (simp add: nth_append)
  have col: "\<And>j. j < Suc ?n \<Longrightarrow> snd (out ! j) = ?G j"
    using out len init_col by simp
  have lout: "length out = Suc ?n" using out len by simp
  from le mem have pk: "length (py_split key) \<le> ?n" by fastforce
  with py_split_length [of key] have pos: "0 < ?n" by linarith
  have "length (snd (out ! (?n - 1))) = length (snd (out ! ?n))"
    using DataFrame_lengths [OF frame, of "out ! (?n - 1)" "out ! ?n"] lout by simp
  then have "length (?G (?n - 1)) = length (?G ?n)" using col pos by simp
  also have "?G ?n = map (\<lambda>item. Num (snd item)) cs" using freq_column_cells [OF le] .
  finally have "length (?G (?n - 1)) = length cs" by simp
  then have "length (filter (\<lambda>item. ?n - 1 < length (py_split (fst item)) \<or> ?n - 1 = ?n) cs)
      = length cs"
    by (simp only: column_cells_length)
  from filter_all_length [OF this] mem
  have "?n - 1 < length (py_split (fst (key, freq))) \<or> ?n - 1 = ?n" by blast
  moreover have "?n - 1 \<noteq> ?n" using pos by linarith
  ultimately have "?n - 1 < length (py_split key)" by simp
  with pk show ?thesis by simp
qed

lemma organize_too_many_parts:
  assumes "(key, freq) \<in> set cs" "length reg_names < length (py_split key)"
  shows "organize_qiskit_result tie cs reg_names = Inl IndexError"
proof -
  have sub: "set reg_names \<subseteq> fst ` set (init_out_dict reg_names)"
    "''$freq'' \<in> fst ` set (init_out_dict reg_names)"
    by (auto simp: init_out_dict_keys)
  from rows_loop_too_many [OF sub assms]
  show ?thesis by (simp add: organize_qiskit_result_def)
qed

subsection \<open>The tie order covers every descending order\<close>

text \<open>
  Whatever order, descending in the sort column, the library's sort leaves the rows in,
  some \<open>tie\<close> makes the model return the rows in that order.
\<close>

lemma filter_single:
  "distinct xs \<Longrightarrow> k \<in> set xs \<Longrightarrow> (\<And>x. x \<in> set xs \<Longrightarrow> P x = (x = k)) \<Longrightarrow> filter P xs = [k]"
proof (induction xs)
  case Nil
  then show ?case by simp
next
  case (Cons a xs)
  show ?case
  proof (cases "a = k")
    case True
    with Cons.prems have "\<forall>x \<in> set xs. \<not> P x" by auto
    then have "filter P xs = []" by (simp add: filter_empty_conv)
    with True Cons.prems show ?thesis by simp
  next
    case False
    with Cons.prems have "filter P xs = [k]" by (intro Cons.IH) auto
    with False Cons.prems show ?thesis by simp
  qed
qed

lemma every_descending_order_has_a_tie:
  fixes f :: "nat \<Rightarrow> int"
  assumes m: "mset perm = mset [0..<n]" and s: "sorted (map f perm)"
  shows "\<exists>tie :: nat \<Rightarrow> nat. sort_key f (sort_key tie [0..<n]) = perm"
proof -
  define tie where "tie = (\<lambda>r. length (takeWhile (\<lambda>x. x \<noteq> r) perm))"
  have d: "distinct perm" using mset_eq_imp_distinct_iff [OF m] by simp
  have idx: "tie (perm ! i) = i" if "i < length perm" for i
  proof -
    have "takeWhile (\<lambda>x. x \<noteq> perm ! i) perm = take i perm"
    proof (rule takeWhile_eq_take_P_nth)
      fix j assume "j < i" "j < length perm"
      with that d show "perm ! j \<noteq> perm ! i" by (simp add: nth_eq_iff_index_eq)
    next
      show "\<not> perm ! i \<noteq> perm ! i" by simp
    qed
    with that show ?thesis by (simp add: tie_def)
  qed
  have "map tie perm = [0..<length perm]"
    by (rule nth_equalityI) (simp_all add: idx)
  then have st: "sorted (map tie perm)" by simp
  have inj: "tie x = tie y \<longleftrightarrow> x = y" if "x \<in> set perm" "y \<in> set perm" for x y
    using that idx by (metis in_set_conv_nth)
  have d0: "distinct [0..<n]" by simp
  have set_eq: "set perm = set [0..<n]" using m by (rule mset_eq_setD)
  have first: "sort_key tie [0..<n] = perm"
  proof (rule properties_for_sort_key [OF m _ st])
    fix k assume k: "k \<in> set perm"
    have a: "filter (\<lambda>x. tie k = tie x) perm = [k]"
      by (rule filter_single [OF d k]) (use inj k in auto)
    have b: "filter (\<lambda>x. tie k = tie x) [0..<n] = [k]"
    proof (rule filter_single [OF d0])
      show "k \<in> set [0..<n]" using k set_eq by simp
    next
      fix x assume "x \<in> set [0..<n]"
      then have "x \<in> set perm" using set_eq by simp
      with inj k show "(tie k = tie x) = (x = k)" by auto
    qed
    from a b show "filter (\<lambda>x. tie k = tie x) perm = filter (\<lambda>x. tie k = tie x) [0..<n]"
      by simp
  qed
  have second: "sort_key f perm = perm" using s by (rule sort_key_id_if_sorted)
  have "sort_key f (sort_key tie [0..<n]) = perm" unfolding first by (rule second)
  then show ?thesis by (rule exI [where x = tie])
qed

subsection \<open>The claims about the formatter\<close>




text \<open>
  C10.  Whenever some key of the counts splits into more substrings than there are
  register names, the function raises \<open>IndexError\<close> and returns no table.  And whenever
  it returns a table whose columns are the register names followed by \<open>$freq\<close>, every
  key of the counts splits into exactly as many substrings as there are register names.
  Both hold whatever the tie order of the sort.
\<close>

theorem organize_qiskit_result_key_lengths:
  "((full_bit_string, freq) \<in> set result_counts \<and>
    length registers_names < length (py_split full_bit_string) \<longrightarrow>
      organize_qiskit_result tie result_counts registers_names = Inl IndexError) \<and>
   (organize_qiskit_result tie result_counts registers_names = Inr df \<and>
    map fst (columns df) = registers_names @ [''$freq''] \<and>
    (full_bit_string, freq) \<in> set result_counts \<longrightarrow>
      length (py_split full_bit_string) = length registers_names)"
  using organize_too_many_parts organize_well_formed_lengths by blast

theorem organize_qiskit_result_key_lengths_witness:
  "((''1 0 1'', 5) \<in> set [(''0 1'', 3), (''1 0 1'', 5 :: int)] \<and>
    length [''b'', ''a''] < length (py_split ''1 0 1'') \<and>
    organize_qiskit_result (\<lambda>r. r) [(''0 1'', 3), (''1 0 1'', 5)] [''b'', ''a''] =
      Inl IndexError) \<and>
   (organize_qiskit_result (\<lambda>r. r) [(''0 1'', 3), (''1 0'', 5)] [''b'', ''a''] =
      Inr \<lparr>index = [0, 1],
           columns = [(''b'', [Str ''0'', Str ''1'']), (''a'', [Str ''1'', Str ''0'']),
                      (''$freq'', [Num 5, Num 3])]\<rparr> \<and>
    (''1 0'', 5) \<in> set [(''0 1'', 3), (''1 0'', 5 :: int)] \<and>
    length (py_split ''1 0'') = length [''b'', ''a''])"
proof -
  have a: "(''1 0 1'', 5) \<in> set [(''0 1'', 3), (''1 0 1'', 5 :: int)]" by simp
  have b: "length [''b'', ''a''] < length (py_split ''1 0 1'')" by (simp add: py_split_def)
  have c: "organize_qiskit_result (\<lambda>r. r) [(''0 1'', 3), (''1 0'', 5)] [''b'', ''a''] =
      Inr \<lparr>index = [0, 1],
           columns = [(''b'', [Str ''0'', Str ''1'']), (''a'', [Str ''1'', Str ''0'']),
                      (''$freq'', [Num 5, Num 3])]\<rparr>"
    by code_simp
  have d: "(''1 0'', 5) \<in> set [(''0 1'', 3), (''1 0'', 5 :: int)]" by simp
  from organize_qiskit_result_key_lengths
    [of "''1 0 1''" 5 "[(''0 1'', 3), (''1 0 1'', 5)]" "[''b'', ''a'']" "\<lambda>r. r"] a b
  have e: "organize_qiskit_result (\<lambda>r. r) [(''0 1'', 3), (''1 0 1'', 5)] [''b'', ''a''] =
      Inl IndexError"
    by blast
  from organize_qiskit_result_key_lengths
    [of "''1 0''" 5 "[(''0 1'', 3), (''1 0'', 5)]" "[''b'', ''a'']" "\<lambda>r. r"
        "\<lparr>index = [0, 1],
           columns = [(''b'', [Str ''0'', Str ''1'']), (''a'', [Str ''1'', Str ''0'']),
                      (''$freq'', [Num 5, Num 3])]\<rparr>"] c d
  have f: "length (py_split ''1 0'') = length [''b'', ''a'']" by simp
  from a b c d e f show ?thesis by blast
qed

text \<open>
  C7, as the code has it.  For the counts \<open>{"1 0": 700, "0 1": 324}\<close> and the register
  names \<open>["b", "a"]\<close> the function returns, whatever the tie order of the sort, two rows
  with index 0 and 1: first \<open>b = "0", a = "1", $freq = 700\<close>, then
  \<open>b = "1", a = "0", $freq = 324\<close>.  The first name receives the last substring of the
  key.
\<close>

theorem organize_example_rows:
  "organize_qiskit_result tie [(''1 0'', 700), (''0 1'', 324)] [''b'', ''a''] =
     Inr \<lparr>index = [0, 1],
          columns = [(''b'', [Str ''0'', Str ''1'']),
                     (''a'', [Str ''1'', Str ''0'']),
                     (''$freq'', [Num 700, Num 324])]\<rparr>"
proof -
  have d: "distinct ([''b'', ''a''] @ [''$freq''])" by simp
  have p: "\<forall>item \<in> set [(''1 0'', 700 :: int), (''0 1'', 324)].
      length (py_split (fst item)) = length [''b'', ''a'']"
    by (simp add: py_split_def)
  have u: "[0..<2] = [0, Suc 0]" by (simp add: upt_rec)
  have perm: "sort_key (\<lambda>r. - (map snd [(''1 0'', 700 :: int), (''0 1'', 324)] ! r))
      (sort_key tie [0..<length [(''1 0'', 700 :: int), (''0 1'', 324)]]) = [0, Suc 0]"
    by (simp add: u)
  show ?thesis
    unfolding organize_result [OF d p] perm by (simp add: u py_split_def)
qed

text \<open>
  The rows \<open>b = "1", a = "0", $freq = 700\<close> and \<open>b = "0", a = "1", $freq = 324\<close> are
  not what the function returns on that input, whatever the tie order of the sort.
\<close>

theorem organize_example_unreversed_rows_refuted:
  "\<forall>tie. organize_qiskit_result tie [(''1 0'', 700), (''0 1'', 324)] [''b'', ''a''] \<noteq>
     Inr \<lparr>index = [0, 1],
          columns = [(''b'', [Str ''1'', Str ''0'']),
                     (''a'', [Str ''0'', Str ''1'']),
                     (''$freq'', [Num 700, Num 324])]\<rparr>"
proof
  fix tie :: "nat \<Rightarrow> nat"
  have d: "distinct ([''b'', ''a''] @ [''$freq''])" by simp
  have p: "\<forall>item \<in> set [(''1 0'', 700 :: int), (''0 1'', 324)].
      length (py_split (fst item)) = length [''b'', ''a'']"
    by (simp add: py_split_def)
  have u: "[0..<2] = [0, Suc 0]" by (simp add: upt_rec)
  have perm: "sort_key (\<lambda>r. - (map snd [(''1 0'', 700 :: int), (''0 1'', 324)] ! r))
      (sort_key tie [0..<length [(''1 0'', 700 :: int), (''0 1'', 324)]]) = [0, Suc 0]"
    by (simp add: u)
  show "organize_qiskit_result tie [(''1 0'', 700), (''0 1'', 324)] [''b'', ''a''] \<noteq>
     Inr \<lparr>index = [0, 1],
          columns = [(''b'', [Str ''1'', Str ''0'']),
                     (''a'', [Str ''0'', Str ''1'']),
                     (''$freq'', [Num 700, Num 324])]\<rparr>"
    unfolding organize_result [OF d p] perm by (simp add: u py_split_def)
qed

section \<open>Properties of the circuit builder\<close>

subsection \<open>What each method appends, and when the library accepts it\<close>

lemma add_gates_fields [simp]:
  "phase_ancilla (add_gates gs st) = phase_ancilla st"
  "qubits (add_gates gs st) = qubits st"
  "clbits (add_gates gs st) = clbits st"
  "names (add_gates gs st) = names st"
  "data (circ (add_gates gs st)) = data (circ st) @ gs"
  "regs (circ (add_gates gs st)) = regs (circ st)"
  by (simp_all add: add_gates_def)

lemma add_gates_twice [simp]: "add_gates gs (add_gates hs st) = add_gates (hs @ gs) st"
  by (simp add: add_gates_def)

lemma add_gates_nil [simp]: "add_gates [] st = st"
  by (simp add: add_gates_def)

lemma registers_add_gates [simp]:
  "qubit_register (add_gates gs st) = qubit_register st"
  "clbit_register (add_gates gs st) = clbit_register st"
  by (simp_all add: qubit_register_def clbit_register_def fun_eq_iff)

lemma qubit_of_data [simp]: "qubit_of (c\<lparr>data := d\<rparr>) = qubit_of c"
proof
  fix b show "qubit_of (c\<lparr>data := d\<rparr>) b = qubit_of c b" by (cases b) simp
qed

lemma appended_add_gates [simp]: "appended st (add_gates gs st) = gs"
  by (simp add: appended_def)

lemma barrier_add_gates: "barrier st = add_gates [Barrier] st"
  by (simp add: barrier_def circ_barrier_def add_gates_def)

lemma distinct_bits: "distinct (map (\<lambda>q. Bit q 0) qs) = distinct qs"
  by (simp add: distinct_map inj_on_def)

lemma qubits_of_circuit:
  "list_all (qubit_of (circ st)) (map (\<lambda>q. Bit q 0) qs) = list_all (qubit_register st) qs"
  by (induction qs) (simp_all add: qubit_register_def)

lemma single_gates:
  "h_gate q st = (if qubit_register st q then Inr (add_gates [HGate (Bit q 0)] st)
                  else Inl CircuitError)"
  "z_gate q st = (if qubit_register st q then Inr (add_gates [ZGate (Bit q 0)] st)
                  else Inl CircuitError)"
  "x_gate q st = (if qubit_register st q then Inr (add_gates [XGate (Bit q 0)] st)
                  else Inl CircuitError)"
  "logic_not q st = (if qubit_register st q then Inr (add_gates [XGate (Bit q 0)] st)
                     else Inl CircuitError)"
  by (simp_all add: h_gate_def z_gate_def x_gate_def logic_not_def on_circ_def circ_h_def
        circ_z_def circ_x_def circ_gate_def qubit_register_def add_gates_def)

lemma cz_gate:
  "cz c t st =
   (if qubit_register st c \<and> qubit_register st t \<and> c \<noteq> t
    then Inr (add_gates [CZGate (Bit c 0) (Bit t 0)] st) else Inl CircuitError)"
  by (simp add: cz_def on_circ_def circ_cz_def circ_gate_def qubit_register_def add_gates_def)

lemma mcx_gate:
  "mcx cs t st =
   (if cs \<noteq> [] \<and> list_all (qubit_register st) (cs @ [t]) \<and> distinct (cs @ [t])
    then Inr (add_gates [MCXGate (map (\<lambda>q. Bit q 0) cs) (Bit t 0)] st)
    else Inl CircuitError)"
proof -
  have a: "list_all (qubit_of (circ st)) (map (\<lambda>q. Bit q 0) cs @ [Bit t 0]) =
      list_all (qubit_register st) (cs @ [t])"
    using qubits_of_circuit [of st "cs @ [t]"] by simp
  have b: "distinct (map (\<lambda>q. Bit q 0) cs @ [Bit t 0]) = distinct (cs @ [t])"
    using distinct_bits [of "cs @ [t]"] by simp
  show ?thesis
    unfolding mcx_def on_circ_def circ_mcx_def circ_gate_def a b
    by (simp add: add_gates_def)
qed

lemma logic_and_gate:
  "logic_and cs t st =
   (if cs \<noteq> [] \<and> list_all (qubit_register st) (cs @ [t]) \<and> distinct (cs @ [t])
    then Inr (add_gates [MCXGate (map (\<lambda>q. Bit q 0) cs) (Bit t 0)] st)
    else Inl CircuitError)"
  using mcx_gate [of cs t st] by (simp add: logic_and_def mcx_def)

lemma x_loop_gates:
  "x_loop qs st =
   (if list_all (qubit_register st) qs then Inr (add_gates (map (\<lambda>q. XGate (Bit q 0)) qs) st)
    else Inl CircuitError)"
proof (induction qs arbitrary: st)
  case Nil
  show ?case by simp
next
  case (Cons q qs)
  show ?case by (simp add: single_gates Cons.IH)
qed

lemma diffusion_gates:
  "diffusion target_qubit st =
   (if qubits st \<noteq> [] \<and> list_all (qubit_register st) (qubits st @ [phase_ancilla st]) \<and>
       distinct (qubits st @ [phase_ancilla st])
    then Inr (add_gates (map (\<lambda>q. XGate (Bit q 0)) (qubits st) @
                         [ZGate (Bit (phase_ancilla st) 0),
                          MCXGate (map (\<lambda>q. Bit q 0) (qubits st)) (Bit (phase_ancilla st) 0),
                          ZGate (Bit (phase_ancilla st) 0)] @
                         map (\<lambda>q. XGate (Bit q 0)) (qubits st)) st)
    else Inl CircuitError)"
  by (auto simp: diffusion_def Let_def x_loop_gates single_gates mcx_gate)

lemma logic_or_gates:
  "logic_or cs t st =
   (if cs \<noteq> [] \<and> list_all (qubit_register st) (cs @ [t]) \<and> distinct (cs @ [t])
    then Inr (add_gates (map XGate (map (\<lambda>q. Bit q 0) cs) @
                         [MCXGate (map (\<lambda>q. Bit q 0) cs) (Bit t 0)] @
                         map XGate (map (\<lambda>q. Bit q 0) cs) @ [XGate (Bit t 0)]) st)
    else Inl CircuitError)"
proof -
  have a: "list_all (qubit_of (circ st)) (map (\<lambda>q. Bit q 0) cs) = list_all (qubit_register st) cs"
    by (rule qubits_of_circuit)
  have b: "distinct (map (\<lambda>q. Bit q 0) cs @ [Bit t 0]) = distinct (cs @ [t])"
    using distinct_bits [of "cs @ [t]"] by simp
  show ?thesis
    by (auto simp: logic_or_def Let_def circ_x_list_def circ_mcx_def circ_gate_def circ_x_def
          a b qubit_register_def [of st t] add_gates_def simp del: distinct_append)
qed

lemma consistent_add_gates [simp]: "consistent (add_gates gs st) = consistent st"
  by (simp add: consistent_def)

lemma consistent_lengths:
  "consistent st \<Longrightarrow> length (qubits st) = length (names st)"
  "consistent st \<Longrightarrow> length (clbits st) = length (names st)"
  by (simp_all add: consistent_def)

lemma consistent_qubits:
  assumes "consistent st"
  shows "list_all (qubit_register st) (qubits st @ [phase_ancilla st])"
    and "distinct (qubits st @ [phase_ancilla st])"
    and "list_all (clbit_register st) (clbits st)"
proof -
  from assms have cons:
    "phase_ancilla st = QuantumRegister ''phase_ancilla'' \<and>
     qubits st = map (\<lambda>label. QuantumRegister (''q_'' @ label)) (names st) \<and>
     clbits st = map (\<lambda>label. ClassicalRegister (''c_'' @ label)) (names st) \<and>
     distinct (names st) \<and>
     set (phase_ancilla st # qubits st @ clbits st) \<subseteq> set (regs (circ st))"
    unfolding consistent_def .
  from cons have q: "qubits st = map (\<lambda>label. QuantumRegister (''q_'' @ label)) (names st)"
    by blast
  from cons have c: "clbits st = map (\<lambda>label. ClassicalRegister (''c_'' @ label)) (names st)"
    by blast
  from cons have pa: "phase_ancilla st = QuantumRegister ''phase_ancilla''" by blast
  from cons have d: "distinct (names st)" by blast
  from cons have sub: "set (phase_ancilla st # qubits st @ clbits st) \<subseteq> set (regs (circ st))"
    by blast
  have "\<forall>r \<in> set (qubits st). is_quantum r" unfolding q by simp
  moreover have "is_quantum (phase_ancilla st)" unfolding pa by simp
  ultimately show "list_all (qubit_register st) (qubits st @ [phase_ancilla st])"
    using sub by (auto simp: list_all_iff qubit_register_def)
  have "\<forall>r \<in> set (clbits st). \<not> is_quantum r" unfolding c by simp
  then show "list_all (clbit_register st) (clbits st)"
    using sub by (auto simp: list_all_iff clbit_register_def)
  have "distinct (qubits st)" unfolding q using d by (simp add: distinct_map inj_on_def)
  moreover have "phase_ancilla st \<notin> set (qubits st)" unfolding q pa by auto
  ultimately show "distinct (qubits st @ [phase_ancilla st])" by simp
qed

lemma consistent_target:
  assumes "consistent st" "target_qubit \<in> set (qubits st)"
  shows "qubit_register st target_qubit \<and> qubit_register st (phase_ancilla st) \<and>
         target_qubit \<noteq> phase_ancilla st \<and> qubits st \<noteq> []"
  using consistent_qubits(1,2) [OF assms(1)] assms(2) by (auto simp: list_all_iff)

lemma consistent_init:
  "consistent \<lparr>circ = \<lparr>regs = [QuantumRegister ''phase_ancilla''], data = d\<rparr>,
               phase_ancilla = QuantumRegister ''phase_ancilla'',
               qubits = [], clbits = [], names = []\<rparr>"
  by (simp add: consistent_def)

lemma consistent_create_qubit:
  assumes "consistent st" "create_qubit label st = Inr (reg, st')"
  shows "consistent st'"
proof -
  let ?q = "QuantumRegister (''q_'' @ label)"
  let ?c = "ClassicalRegister (''c_'' @ label)"
  from assms(2) have fresh: "''q_'' @ label \<notin> reg_name ` set (regs (circ st))"
    and st': "st' = st\<lparr>circ := (circ st)\<lparr>regs := regs (circ st) @ [?q, ?c]\<rparr>,
                      qubits := qubits st @ [?q], clbits := clbits st @ [?c],
                      names := names st @ [label]\<rparr>"
    by (auto simp: create_qubit_def add_register_def Let_def split: if_splits)
  have "label \<notin> set (names st)"
  proof
    assume "label \<in> set (names st)"
    with assms(1) have "?q \<in> set (regs (circ st))" by (auto simp: consistent_def)
    then have "reg_name ?q \<in> reg_name ` set (regs (circ st))" by (rule imageI)
    with fresh show False by simp
  qed
  moreover from assms(1) have cons:
    "phase_ancilla st = QuantumRegister ''phase_ancilla''"
    "qubits st = map (\<lambda>label. QuantumRegister (''q_'' @ label)) (names st)"
    "clbits st = map (\<lambda>label. ClassicalRegister (''c_'' @ label)) (names st)"
    "distinct (names st)"
    "set (phase_ancilla st # qubits st @ clbits st) \<subseteq> set (regs (circ st))"
    unfolding consistent_def by blast+
  moreover from cons(5) have
    "set (phase_ancilla st # (qubits st @ [?q]) @ (clbits st @ [?c])) \<subseteq>
     set (regs (circ st) @ [?q, ?c])"
    by auto
  ultimately show ?thesis unfolding st' consistent_def by simp
qed

lemma measure_gate:
  "on_circ (circ_measure q c) st =
   (if qubit_register st q \<and> clbit_register st c then Inr (add_gates [Measure q c] st)
    else Inl CircuitError)"
  by (simp add: on_circ_def circ_measure_def qubit_register_def clbit_register_def add_gates_def)

lemma measure_loop_gates:
  assumes "\<forall>i \<in> set is. i < length (qubits st) \<and> i < length (clbits st)"
    and "list_all (qubit_register st) (qubits st)"
    and "list_all (clbit_register st) (clbits st)"
  shows "measure_loop is st =
         Inr (add_gates (map (\<lambda>i. Measure (qubits st ! i) (clbits st ! i)) is) st)"
  using assms
proof (induction "is" arbitrary: st)
  case Nil
  then show ?case by simp
next
  case (Cons i "is")
  let ?st1 = "add_gates [Measure (qubits st ! i) (clbits st ! i)] st"
  from Cons.prems have i: "i < length (qubits st)" "i < length (clbits st)" by simp_all
  with Cons.prems have v: "qubit_register st (qubits st ! i)" "clbit_register st (clbits st ! i)"
    by (simp_all add: list_all_length)
  have "measure_loop is ?st1 =
      Inr (add_gates (map (\<lambda>i. Measure (qubits ?st1 ! i) (clbits ?st1 ! i)) is) ?st1)"
    by (rule Cons.IH) (use Cons.prems in simp_all)
  with i v show ?case by (simp add: py_index_nat measure_gate)
qed

lemma grover_iteration_gates:
  assumes b: "build_search_space_override P = Some build"
      "\<And>gs. build (add_gates gs st) = Inr (add_gates (gs @ B) st)"
    and r: "revert_search_space_override P = Some revert"
      "\<And>gs. revert (add_gates gs st) = Inr (add_gates (gs @ R) st)"
    and c: "consistent st" and t: "target_qubit \<in> set (qubits st)"
  shows "grover_iteration P target_qubit (add_gates gs st) =
     Inr (add_gates
            (gs @ [Barrier] @ B @
             [Barrier, CZGate (Bit target_qubit 0) (Bit (phase_ancilla st) 0), Barrier] @
             R @ [Barrier] @
             map (\<lambda>q. XGate (Bit q 0)) (qubits st) @
             [ZGate (Bit (phase_ancilla st) 0),
              MCXGate (map (\<lambda>q. Bit q 0) (qubits st)) (Bit (phase_ancilla st) 0),
              ZGate (Bit (phase_ancilla st) 0)] @
             map (\<lambda>q. XGate (Bit q 0)) (qubits st)) st)"
proof -
  note v = consistent_target [OF c t] consistent_qubits(1,2) [OF c]
  show ?thesis
    using v
    by (simp add: grover_iteration_def build_search_space_def revert_search_space_def
          b r barrier_add_gates cz_gate diffusion_gates Let_def)
qed

lemma iterations_gates:
  assumes b: "build_search_space_override P = Some build"
      "\<And>gs. build (add_gates gs st) = Inr (add_gates (gs @ B) st)"
    and r: "revert_search_space_override P = Some revert"
      "\<And>gs. revert (add_gates gs st) = Inr (add_gates (gs @ R) st)"
    and c: "consistent st" and t: "target_qubit \<in> set (qubits st)"
  shows "iterations k P target_qubit (add_gates gs st) =
     Inr (add_gates
            (gs @ concat (replicate k
               ([Barrier] @ B @
                [Barrier, CZGate (Bit target_qubit 0) (Bit (phase_ancilla st) 0), Barrier] @
                R @ [Barrier] @
                map (\<lambda>q. XGate (Bit q 0)) (qubits st) @
                [ZGate (Bit (phase_ancilla st) 0),
                 MCXGate (map (\<lambda>q. Bit q 0) (qubits st)) (Bit (phase_ancilla st) 0),
                 ZGate (Bit (phase_ancilla st) 0)] @
                map (\<lambda>q. XGate (Bit q 0)) (qubits st)))) st)"
proof (induction k arbitrary: gs)
  case 0
  show ?case by simp
next
  case (Suc k)
  show ?case
    by (simp add: grover_iteration_gates [OF b r c t] Suc.IH)
qed

lemma build_all_gates:
  assumes b: "build_search_space_override P = Some build"
      "\<And>gs. build (add_gates gs st) = Inr (add_gates (gs @ B) st)"
    and r: "revert_search_space_override P = Some revert"
      "\<And>gs. revert (add_gates gs st) = Inr (add_gates (gs @ R) st)"
    and c: "consistent st" and t: "target_qubit \<in> set (qubits st)"
  shows "build_all P target_qubit n_iterations st =
     Inr (add_gates
            (concat (replicate (nat n_iterations)
               ([Barrier] @ B @
                [Barrier, CZGate (Bit target_qubit 0) (Bit (phase_ancilla st) 0), Barrier] @
                R @ [Barrier] @
                map (\<lambda>q. XGate (Bit q 0)) (qubits st) @
                [ZGate (Bit (phase_ancilla st) 0),
                 MCXGate (map (\<lambda>q. Bit q 0) (qubits st)) (Bit (phase_ancilla st) 0),
                 ZGate (Bit (phase_ancilla st) 0)] @
                map (\<lambda>q. XGate (Bit q 0)) (qubits st))) @
             [Barrier] @ B @ [Barrier] @
             map (\<lambda>i. Measure (qubits st ! i) (clbits st ! i)) [0..<length (names st)]) st)"
proof -
  let ?round = "[Barrier] @ B @
                [Barrier, CZGate (Bit target_qubit 0) (Bit (phase_ancilla st) 0), Barrier] @
                R @ [Barrier] @
                map (\<lambda>q. XGate (Bit q 0)) (qubits st) @
                [ZGate (Bit (phase_ancilla st) 0),
                 MCXGate (map (\<lambda>q. Bit q 0) (qubits st)) (Bit (phase_ancilla st) 0),
                 ZGate (Bit (phase_ancilla st) 0)] @
                map (\<lambda>q. XGate (Bit q 0)) (qubits st)"
  let ?rounds = "concat (replicate (nat n_iterations) ?round)"
  let ?st3 = "add_gates (?rounds @ [Barrier] @ B @ [Barrier]) st"
  have it: "iterations (nat n_iterations) P target_qubit st = Inr (add_gates ?rounds st)"
    using iterations_gates [OF b r c t, of "nat n_iterations" "[]"] by simp
  have bs: "build_search_space P (barrier (add_gates ?rounds st)) =
      Inr (add_gates (?rounds @ [Barrier] @ B) st)"
    using b(2) [of "?rounds @ [Barrier]"] by (simp add: build_search_space_def b(1) barrier_add_gates)
  have v: "list_all (qubit_register ?st3) (qubits ?st3)" "list_all (clbit_register ?st3) (clbits ?st3)"
    using consistent_qubits(1,3) [OF c] by simp_all
  have "\<forall>i \<in> set [0..<length (names ?st3)]. i < length (qubits ?st3) \<and> i < length (clbits ?st3)"
    using consistent_lengths [OF c] by simp
  from measure_loop_gates [OF this v]
  have ml: "measure_loop [0..<length (names ?st3)] ?st3 =
      Inr (add_gates (map (\<lambda>i. Measure (qubits st ! i) (clbits st ! i)) [0..<length (names st)]) ?st3)"
    by simp
  have "build_all P target_qubit n_iterations st = measure_loop [0..<length (names ?st3)] ?st3"
    unfolding build_all_def it using bs by (simp add: barrier_add_gates Let_def)
  with ml show ?thesis by simp
qed

lemma sample_fields:
  "qubits sample_instance = [QuantumRegister ''q_a'', QuantumRegister ''q_t'']"
  "clbits sample_instance = [ClassicalRegister ''c_a'', ClassicalRegister ''c_t'']"
  "names sample_instance = [''a'', ''t'']"
  "phase_ancilla sample_instance = QuantumRegister ''phase_ancilla''"
  "data (circ sample_instance) = [HGate (Bit (QuantumRegister ''phase_ancilla'') 0)]"
  "regs (circ sample_instance) =
     [QuantumRegister ''phase_ancilla'', QuantumRegister ''q_a'', ClassicalRegister ''c_a'',
      QuantumRegister ''q_t'', ClassicalRegister ''c_t'']"
  by (simp_all add: sample_instance_def)

lemma sample_consistent: "consistent sample_instance"
  by (simp add: consistent_def sample_fields)

lemma sample_overrides:
  "prepare_override sample_problem = Some sample_prepare"
  "build_search_space_override sample_problem = Some sample_build"
  "revert_search_space_override sample_problem = Some sample_revert"
  by (simp_all add: sample_problem_def)

lemma sample_build_gates:
  "sample_build (add_gates gs sample_instance) =
   Inr (add_gates (gs @ [HGate (Bit (QuantumRegister ''q_a'') 0),
                         MCXGate [Bit (QuantumRegister ''q_a'') 0]
                           (Bit (QuantumRegister ''q_t'') 0)]) sample_instance)"
  by (simp add: sample_build_def single_gates logic_and_gate qubit_register_def sample_fields)

lemma sample_revert_gates:
  "sample_revert (add_gates gs sample_instance) =
   Inr (add_gates (gs @ [MCXGate [Bit (QuantumRegister ''q_a'') 0]
                           (Bit (QuantumRegister ''q_t'') 0),
                         HGate (Bit (QuantumRegister ''q_a'') 0)]) sample_instance)"
  by (simp add: sample_revert_def single_gates logic_and_gate qubit_register_def sample_fields)

lemma init_sample_problem: "init sample_problem = Inr sample_instance"
  by (simp add: init_def prepare_def sample_problem_def sample_prepare_def sample_instance_def
        create_qubit_def add_register_def QuantumCircuit_def circ_h_def circ_gate_def Let_def)

lemma three_qubit_fields:
  "regs (circ three_qubit_instance) =
     [QuantumRegister ''phase_ancilla'', QuantumRegister ''q_a'', ClassicalRegister ''c_a'',
      QuantumRegister ''q_b'', ClassicalRegister ''c_b'',
      QuantumRegister ''q_t'', ClassicalRegister ''c_t'']"
  "data (circ three_qubit_instance) = [HGate (Bit (QuantumRegister ''phase_ancilla'') 0)]"
  by (simp_all add: three_qubit_instance_def)

lemma filter_concat_replicate:
  "filter p gs = [] \<Longrightarrow> filter p (concat (replicate k gs)) = []"
  by (induction k) simp_all

lemma filter_x_gates: "filter is_measure (map (\<lambda>q. XGate (Bit q 0)) qs) = []"
  by (induction qs) simp_all

lemma filter_measures:
  "filter is_measure (map (\<lambda>i. Measure (f i) (g i)) is) = map (\<lambda>i. Measure (f i) (g i)) is"
  by (induction "is") simp_all

lemma consistent_measurements:
  assumes "consistent st"
  shows "map (\<lambda>i. Measure (qubits st ! i) (clbits st ! i)) [0..<length (names st)] =
         map (\<lambda>label. Measure (QuantumRegister (''q_'' @ label)) (ClassicalRegister (''c_'' @ label)))
           (names st)"
  using assms by (intro nth_equalityI) (simp_all add: consistent_def)

lemma non_target_filter:
  "concat (map (\<lambda>qbit. if qbit \<noteq> t then [Bit qbit 0] else []) qs) =
   map (\<lambda>q. Bit q 0) (filter (\<lambda>q. q \<noteq> t) qs)"
  by (induction qs) simp_all

subsection \<open>The claims about \<open>build_all\<close>\<close>

text \<open>
  C1.  Let the subclass override \<open>build_search_space\<close> and \<open>revert_search_space\<close> by
  methods that, called on the instance \<open>st\<close> at any stage of the assembly, append the
  gates \<open>B\<close> and \<open>R\<close>; let \<open>st\<close> be as \<open>__init__\<close> and \<open>create_qubit\<close> leave it, and let
  the target be one of its qubit registers.  Then \<open>build_all\<close> returns, and the circuit
  it has assembled is the circuit of \<open>st\<close> followed by, \<open>n_iterations\<close> times (no times
  for a negative number): a barrier, \<open>B\<close>, a barrier, the controlled-Z from the target to
  the phase ancilla, a barrier, \<open>R\<close>, a barrier, and the diffusion operator (X on every
  qubit register, Z on the ancilla, the multi-controlled X from all qubit registers to the
  ancilla, Z on the ancilla, X on every qubit register); and after the last round a
  barrier, \<open>B\<close> once more, a barrier, and one measurement per register.  With
  \<open>n_iterations = 0\<close> only this last part is appended.
\<close>

theorem build_all_circuit:
  assumes "build_search_space_override P = Some build"
    and "\<And>gs. build (add_gates gs st) = Inr (add_gates (gs @ B) st)"
    and "revert_search_space_override P = Some revert"
    and "\<And>gs. revert (add_gates gs st) = Inr (add_gates (gs @ R) st)"
    and "consistent st"
    and "target_qubit \<in> set (qubits st)"
  shows "(\<exists>st'. build_all P target_qubit n_iterations st = Inr st' \<and>
            data (circ st') =
              data (circ st) @
              concat (replicate (nat n_iterations)
                ([Barrier] @ B @
                 [Barrier, CZGate (Bit target_qubit 0) (Bit (phase_ancilla st) 0), Barrier] @
                 R @ [Barrier] @
                 map (\<lambda>q. XGate (Bit q 0)) (qubits st) @
                 [ZGate (Bit (phase_ancilla st) 0),
                  MCXGate (map (\<lambda>q. Bit q 0) (qubits st)) (Bit (phase_ancilla st) 0),
                  ZGate (Bit (phase_ancilla st) 0)] @
                 map (\<lambda>q. XGate (Bit q 0)) (qubits st))) @
              [Barrier] @ B @ [Barrier] @
              map (\<lambda>i. Measure (qubits st ! i) (clbits st ! i)) [0..<length (names st)]) \<and>
         (\<exists>st'. build_all P target_qubit 0 st = Inr st' \<and>
            data (circ st') =
              data (circ st) @ [Barrier] @ B @ [Barrier] @
              map (\<lambda>i. Measure (qubits st ! i) (clbits st ! i)) [0..<length (names st)])"
proof (intro conjI)
  show "\<exists>st'. build_all P target_qubit n_iterations st = Inr st' \<and>
            data (circ st') =
              data (circ st) @
              concat (replicate (nat n_iterations)
                ([Barrier] @ B @
                 [Barrier, CZGate (Bit target_qubit 0) (Bit (phase_ancilla st) 0), Barrier] @
                 R @ [Barrier] @
                 map (\<lambda>q. XGate (Bit q 0)) (qubits st) @
                 [ZGate (Bit (phase_ancilla st) 0),
                  MCXGate (map (\<lambda>q. Bit q 0) (qubits st)) (Bit (phase_ancilla st) 0),
                  ZGate (Bit (phase_ancilla st) 0)] @
                 map (\<lambda>q. XGate (Bit q 0)) (qubits st))) @
              [Barrier] @ B @ [Barrier] @
              map (\<lambda>i. Measure (qubits st ! i) (clbits st ! i)) [0..<length (names st)]"
    unfolding build_all_gates [OF assms] by simp
  show "\<exists>st'. build_all P target_qubit 0 st = Inr st' \<and>
            data (circ st') =
              data (circ st) @ [Barrier] @ B @ [Barrier] @
              map (\<lambda>i. Measure (qubits st ! i) (clbits st ! i)) [0..<length (names st)]"
    unfolding build_all_gates [OF assms] by simp
qed

theorem build_all_circuit_witness:
  "(\<exists>st'. build_all sample_problem (QuantumRegister ''q_t'') 1 sample_instance = Inr st' \<and>
      data (circ st') =
        [HGate (Bit (QuantumRegister ''phase_ancilla'') 0),
         Barrier,
         HGate (Bit (QuantumRegister ''q_a'') 0),
         MCXGate [Bit (QuantumRegister ''q_a'') 0] (Bit (QuantumRegister ''q_t'') 0),
         Barrier,
         CZGate (Bit (QuantumRegister ''q_t'') 0) (Bit (QuantumRegister ''phase_ancilla'') 0),
         Barrier,
         MCXGate [Bit (QuantumRegister ''q_a'') 0] (Bit (QuantumRegister ''q_t'') 0),
         HGate (Bit (QuantumRegister ''q_a'') 0),
         Barrier,
         XGate (Bit (QuantumRegister ''q_a'') 0),
         XGate (Bit (QuantumRegister ''q_t'') 0),
         ZGate (Bit (QuantumRegister ''phase_ancilla'') 0),
         MCXGate [Bit (QuantumRegister ''q_a'') 0, Bit (QuantumRegister ''q_t'') 0]
           (Bit (QuantumRegister ''phase_ancilla'') 0),
         ZGate (Bit (QuantumRegister ''phase_ancilla'') 0),
         XGate (Bit (QuantumRegister ''q_a'') 0),
         XGate (Bit (QuantumRegister ''q_t'') 0),
         Barrier,
         HGate (Bit (QuantumRegister ''q_a'') 0),
         MCXGate [Bit (QuantumRegister ''q_a'') 0] (Bit (QuantumRegister ''q_t'') 0),
         Barrier,
         Measure (QuantumRegister ''q_a'') (ClassicalRegister ''c_a''),
         Measure (QuantumRegister ''q_t'') (ClassicalRegister ''c_t'')]) \<and>
   (\<exists>st'. build_all sample_problem (QuantumRegister ''q_t'') 0 sample_instance = Inr st' \<and>
      data (circ st') =
        [HGate (Bit (QuantumRegister ''phase_ancilla'') 0),
         Barrier,
         HGate (Bit (QuantumRegister ''q_a'') 0),
         MCXGate [Bit (QuantumRegister ''q_a'') 0] (Bit (QuantumRegister ''q_t'') 0),
         Barrier,
         Measure (QuantumRegister ''q_a'') (ClassicalRegister ''c_a''),
         Measure (QuantumRegister ''q_t'') (ClassicalRegister ''c_t'')])"
proof -
  have t: "QuantumRegister ''q_t'' \<in> set (qubits sample_instance)"
    by (simp add: sample_fields)
  have u: "[0..<2] = [0, Suc 0]" by (simp add: upt_rec)
  from build_all_circuit
    [OF sample_overrides(2) sample_build_gates sample_overrides(3) sample_revert_gates
        sample_consistent t, of 1]
  show ?thesis by (simp add: sample_fields u)
qed

text \<open>
  C2.  Under the assumptions of C1, let neither hook append a measurement and let the
  circuit of \<open>st\<close> hold no measurement yet; \<open>st\<close> has the \<open>k\<close> registers of \<open>names\<close>.  Then
  \<open>build_all\<close> returns, and the measurements of the assembled circuit are exactly \<open>k\<close>:
  the \<open>i\<close>-th measures the \<open>i\<close>-th qubit register \<open>q_<label>\<close> into its classical
  register \<open>c_<label>\<close>, in declaration order.  No instruction measures the phase
  ancilla.
\<close>

theorem build_all_measurements:
  assumes "build_search_space_override P = Some build"
    and "\<And>gs. build (add_gates gs st) = Inr (add_gates (gs @ B) st)"
    and "revert_search_space_override P = Some revert"
    and "\<And>gs. revert (add_gates gs st) = Inr (add_gates (gs @ R) st)"
    and "consistent st"
    and "target_qubit \<in> set (qubits st)"
    and "filter is_measure B = []"
    and "filter is_measure R = []"
    and "filter is_measure (data (circ st)) = []"
  shows "\<exists>st'. build_all P target_qubit n_iterations st = Inr st' \<and>
      filter is_measure (data (circ st')) =
        map (\<lambda>label. Measure (QuantumRegister (''q_'' @ label)) (ClassicalRegister (''c_'' @ label)))
          (names st) \<and>
      filter is_measure (data (circ st')) =
        map (\<lambda>i. Measure (qubits st ! i) (clbits st ! i)) [0..<length (qubits st)] \<and>
      length (filter is_measure (data (circ st'))) = length (qubits st) \<and>
      (\<forall>c. Measure (phase_ancilla st') c \<notin> set (data (circ st')))"
proof -
  let ?round = "[Barrier] @ B @
                [Barrier, CZGate (Bit target_qubit 0) (Bit (phase_ancilla st) 0), Barrier] @
                R @ [Barrier] @
                map (\<lambda>q. XGate (Bit q 0)) (qubits st) @
                [ZGate (Bit (phase_ancilla st) 0),
                 MCXGate (map (\<lambda>q. Bit q 0) (qubits st)) (Bit (phase_ancilla st) 0),
                 ZGate (Bit (phase_ancilla st) 0)] @
                map (\<lambda>q. XGate (Bit q 0)) (qubits st)"
  let ?ms = "map (\<lambda>i. Measure (qubits st ! i) (clbits st ! i)) [0..<length (names st)]"
  let ?named = "map (\<lambda>label. Measure (QuantumRegister (''q_'' @ label))
                   (ClassicalRegister (''c_'' @ label))) (names st)"
  define st' where "st' = add_gates (concat (replicate (nat n_iterations) ?round) @
                [Barrier] @ B @ [Barrier] @ ?ms) st"
  have len: "length (qubits st) = length (names st)"
    using assms(5) by (rule consistent_lengths)
  have run: "build_all P target_qubit n_iterations st = Inr st'"
    unfolding st'_def by (rule build_all_gates [OF assms(1-6)])
  have "filter is_measure ?round = []"
    using assms(7,8) by (simp add: filter_x_gates)
  then have rounds: "filter is_measure (concat (replicate (nat n_iterations) ?round)) = []"
    by (rule filter_concat_replicate)
  have fm: "filter is_measure ?ms = ?ms" by (rule filter_measures)
  have f1: "filter is_measure (data (circ st')) = ?ms"
    unfolding st'_def using rounds fm assms(7,9) by simp
  have named: "?ms = ?named" using assms(5) by (rule consistent_measurements)
  have f2: "filter is_measure (data (circ st')) = ?named" using f1 named by simp
  have f3: "filter is_measure (data (circ st')) =
      map (\<lambda>i. Measure (qubits st ! i) (clbits st ! i)) [0..<length (qubits st)]"
    using f1 len by simp
  have f4: "length (filter is_measure (data (circ st'))) = length (qubits st)"
    using f3 by simp
  have pa: "phase_ancilla st' = QuantumRegister ''phase_ancilla''"
    unfolding st'_def using assms(5) by (simp add: consistent_def)
  have f5: "\<forall>c. Measure (phase_ancilla st') c \<notin> set (data (circ st'))"
  proof (intro allI notI)
    fix c assume a: "Measure (phase_ancilla st') c \<in> set (data (circ st'))"
    have "is_measure (Measure (phase_ancilla st') c)" by simp
    with a have "Measure (phase_ancilla st') c \<in> set (filter is_measure (data (circ st')))"
      by simp
    then have "Measure (QuantumRegister ''phase_ancilla'') c \<in> set ?named"
      by (simp only: f2 pa)
    then show False by auto
  qed
  from run f2 f3 f4 f5 show ?thesis by blast
qed

theorem build_all_measurements_witness:
  "\<exists>st'. build_all sample_problem (QuantumRegister ''q_t'') 2 sample_instance = Inr st' \<and>
      filter is_measure (data (circ st')) =
        map (\<lambda>label. Measure (QuantumRegister (''q_'' @ label)) (ClassicalRegister (''c_'' @ label)))
          (names sample_instance) \<and>
      filter is_measure (data (circ st')) =
        map (\<lambda>i. Measure (qubits sample_instance ! i) (clbits sample_instance ! i))
          [0..<length (qubits sample_instance)] \<and>
      length (filter is_measure (data (circ st'))) = length (qubits sample_instance) \<and>
      (\<forall>c. Measure (phase_ancilla st') c \<notin> set (data (circ st')))"
proof (rule build_all_measurements
    [OF sample_overrides(2) sample_build_gates sample_overrides(3) sample_revert_gates
        sample_consistent])
qed (simp_all add: sample_fields)

text \<open>
  C3, as the code has it.  Where the library accepts the calls, that is, on an instance
  with at least one qubit register whose qubit registers and phase ancilla are pairwise
  distinct quantum registers of the circuit, the diffusion step appends X on every qubit
  register, Z on the phase ancilla, the multi-controlled X from all qubit registers to the
  ancilla, Z again and X on every qubit register: the target is among the flipped
  registers.  Otherwise the step ends with \<open>CircuitError\<close>.  The list of non-target bits
  of line 126 is the bits of the registers unequal to the target, and nothing reads it.
  The measurement loop runs over all registers alike.
\<close>

theorem diffusion_acts_on_all_registers:
  "diffusion target_qubit st =
     (if qubits st \<noteq> [] \<and> list_all (qubit_register st) (qubits st @ [phase_ancilla st]) \<and>
         distinct (qubits st @ [phase_ancilla st])
      then Inr (add_gates (map (\<lambda>q. XGate (Bit q 0)) (qubits st) @
                           [ZGate (Bit (phase_ancilla st) 0),
                            MCXGate (map (\<lambda>q. Bit q 0) (qubits st)) (Bit (phase_ancilla st) 0),
                            ZGate (Bit (phase_ancilla st) 0)] @
                           map (\<lambda>q. XGate (Bit q 0)) (qubits st)) st)
      else Inl CircuitError) \<and>
   data (circ (add_gates (map (\<lambda>q. XGate (Bit q 0)) (qubits st) @
                           [ZGate (Bit (phase_ancilla st) 0),
                            MCXGate (map (\<lambda>q. Bit q 0) (qubits st)) (Bit (phase_ancilla st) 0),
                            ZGate (Bit (phase_ancilla st) 0)] @
                           map (\<lambda>q. XGate (Bit q 0)) (qubits st)) st)) =
     data (circ st) @ map (\<lambda>q. XGate (Bit q 0)) (qubits st) @
       [ZGate (Bit (phase_ancilla st) 0),
        MCXGate (map (\<lambda>q. Bit q 0) (qubits st)) (Bit (phase_ancilla st) 0),
        ZGate (Bit (phase_ancilla st) 0)] @
       map (\<lambda>q. XGate (Bit q 0)) (qubits st) \<and>
   non_target_qubits target_qubit st =
     map (\<lambda>q. Bit q 0) (filter (\<lambda>q. q \<noteq> target_qubit) (qubits st)) \<and>
   (length (qubits st) = length (names st) \<and> length (clbits st) = length (names st) \<and>
    list_all (qubit_register st) (qubits st) \<and> list_all (clbit_register st) (clbits st) \<longrightarrow>
      (\<exists>st'. measure_loop [0..<length (names st)] st = Inr st' \<and>
         data (circ st') =
           data (circ st) @
           map (\<lambda>i. Measure (qubits st ! i) (clbits st ! i)) [0..<length (names st)]))"
proof (intro conjI impI)
  show "diffusion target_qubit st =
     (if qubits st \<noteq> [] \<and> list_all (qubit_register st) (qubits st @ [phase_ancilla st]) \<and>
         distinct (qubits st @ [phase_ancilla st])
      then Inr (add_gates (map (\<lambda>q. XGate (Bit q 0)) (qubits st) @
                           [ZGate (Bit (phase_ancilla st) 0),
                            MCXGate (map (\<lambda>q. Bit q 0) (qubits st)) (Bit (phase_ancilla st) 0),
                            ZGate (Bit (phase_ancilla st) 0)] @
                           map (\<lambda>q. XGate (Bit q 0)) (qubits st)) st)
      else Inl CircuitError)"
    by (rule diffusion_gates)
  show "data (circ (add_gates (map (\<lambda>q. XGate (Bit q 0)) (qubits st) @
                           [ZGate (Bit (phase_ancilla st) 0),
                            MCXGate (map (\<lambda>q. Bit q 0) (qubits st)) (Bit (phase_ancilla st) 0),
                            ZGate (Bit (phase_ancilla st) 0)] @
                           map (\<lambda>q. XGate (Bit q 0)) (qubits st)) st)) =
     data (circ st) @ map (\<lambda>q. XGate (Bit q 0)) (qubits st) @
       [ZGate (Bit (phase_ancilla st) 0),
        MCXGate (map (\<lambda>q. Bit q 0) (qubits st)) (Bit (phase_ancilla st) 0),
        ZGate (Bit (phase_ancilla st) 0)] @
       map (\<lambda>q. XGate (Bit q 0)) (qubits st)"
    by simp
  show "non_target_qubits target_qubit st =
     map (\<lambda>q. Bit q 0) (filter (\<lambda>q. q \<noteq> target_qubit) (qubits st))"
    by (simp add: non_target_qubits_def non_target_filter)
next
  assume a: "length (qubits st) = length (names st) \<and> length (clbits st) = length (names st) \<and>
    list_all (qubit_register st) (qubits st) \<and> list_all (clbit_register st) (clbits st)"
  then have "\<forall>i \<in> set [0..<length (names st)]. i < length (qubits st) \<and> i < length (clbits st)"
    by simp
  from measure_loop_gates [OF this] a
  show "\<exists>st'. measure_loop [0..<length (names st)] st = Inr st' \<and>
         data (circ st') =
           data (circ st) @
           map (\<lambda>i. Measure (qubits st ! i) (clbits st ! i)) [0..<length (names st)]"
    by simp
qed

theorem diffusion_acts_on_all_registers_witness:
  "length (qubits sample_instance) = length (names sample_instance) \<and>
   length (clbits sample_instance) = length (names sample_instance) \<and>
   list_all (qubit_register sample_instance) (qubits sample_instance) \<and>
   list_all (clbit_register sample_instance) (clbits sample_instance) \<and>
   (\<exists>st'. measure_loop [0..<length (names sample_instance)] sample_instance = Inr st' \<and>
      data (circ st') =
        [HGate (Bit (QuantumRegister ''phase_ancilla'') 0),
         Measure (QuantumRegister ''q_a'') (ClassicalRegister ''c_a''),
         Measure (QuantumRegister ''q_t'') (ClassicalRegister ''c_t'')])"
proof -
  have u: "[0..<2] = [0, Suc 0]" by (simp add: upt_rec)
  from diffusion_acts_on_all_registers [of "QuantumRegister ''q_t''" sample_instance]
  show ?thesis
    by (simp add: sample_fields u qubit_register_def clbit_register_def)
qed

text \<open>
  The flip pattern does not leave the target out: with the qubits \<open>a\<close> and \<open>t\<close> and the
  target \<open>t\<close>, the diffusion step applies X to \<open>t\<close> as well, while the non-target list is
  just the bit of \<open>a\<close>; the X on \<open>t\<close> is in the circuit \<open>build_all\<close> assembles.
\<close>

theorem diffusion_flips_target:
  "diffusion (QuantumRegister ''q_t'') sample_instance =
     Inr (add_gates
            [XGate (Bit (QuantumRegister ''q_a'') 0),
             XGate (Bit (QuantumRegister ''q_t'') 0),
             ZGate (Bit (QuantumRegister ''phase_ancilla'') 0),
             MCXGate [Bit (QuantumRegister ''q_a'') 0, Bit (QuantumRegister ''q_t'') 0]
               (Bit (QuantumRegister ''phase_ancilla'') 0),
             ZGate (Bit (QuantumRegister ''phase_ancilla'') 0),
             XGate (Bit (QuantumRegister ''q_a'') 0),
             XGate (Bit (QuantumRegister ''q_t'') 0)]
            sample_instance) \<and>
   (case diffusion (QuantumRegister ''q_t'') sample_instance of
      Inl e \<Rightarrow> [] | Inr st' \<Rightarrow> appended sample_instance st') =
     [XGate (Bit (QuantumRegister ''q_a'') 0),
      XGate (Bit (QuantumRegister ''q_t'') 0),
      ZGate (Bit (QuantumRegister ''phase_ancilla'') 0),
      MCXGate [Bit (QuantumRegister ''q_a'') 0, Bit (QuantumRegister ''q_t'') 0]
        (Bit (QuantumRegister ''phase_ancilla'') 0),
      ZGate (Bit (QuantumRegister ''phase_ancilla'') 0),
      XGate (Bit (QuantumRegister ''q_a'') 0),
      XGate (Bit (QuantumRegister ''q_t'') 0)] \<and>
   non_target_qubits (QuantumRegister ''q_t'') sample_instance = [Bit (QuantumRegister ''q_a'') 0] \<and>
   XGate (Bit (QuantumRegister ''q_t'') 0) \<in>
     set (case build_all sample_problem (QuantumRegister ''q_t'') 1 sample_instance of
            Inl e \<Rightarrow> [] | Inr st' \<Rightarrow> appended sample_instance st')"
proof -
  have t: "QuantumRegister ''q_t'' \<in> set (qubits sample_instance)"
    by (simp add: sample_fields)
  show ?thesis
    unfolding build_all_gates
      [OF sample_overrides(2) sample_build_gates sample_overrides(3) sample_revert_gates
          sample_consistent t]
    by (simp add: diffusion_gates non_target_qubits_def sample_fields qubit_register_def)
qed

section \<open>Properties of the logic gates\<close>

lemma run_gates_append:
  "run_gates (gs @ hs) v = (case run_gates gs v of None \<Rightarrow> None | Some v' \<Rightarrow> run_gates hs v')"
  by (induction gs arbitrary: v) (simp_all split: option.splits)

lemma run_x_gates:
  "distinct bs \<Longrightarrow>
   run_gates (map XGate bs) v = Some (\<lambda>b. if b \<in> set bs then \<not> v b else v b)"
proof (induction bs arbitrary: v)
  case Nil
  then show ?case by simp
next
  case (Cons a bs)
  let ?w = "v(a := \<not> v a)"
  have step: "run_gates (map XGate (a # bs)) v = run_gates (map XGate bs) ?w" by simp
  have ih: "run_gates (map XGate bs) ?w = Some (\<lambda>b. if b \<in> set bs then \<not> ?w b else ?w b)"
  proof (rule Cons.IH)
    show "distinct bs" using Cons.prems by simp
  qed
  have eq: "(\<lambda>b. if b \<in> set bs then \<not> ?w b else ?w b) =
      (\<lambda>b. if b \<in> set (a # bs) then \<not> v b else v b)"
  proof (rule ext)
    fix b
    show "(if b \<in> set bs then \<not> ?w b else ?w b) =
        (if b \<in> set (a # bs) then \<not> v b else v b)"
      using Cons.prems by (cases "b = a") auto
  qed
  show ?case by (simp only: step ih eq)
qed

lemma operand_bits:
  "distinct qs \<Longrightarrow> distinct (map (\<lambda>q. Bit q 0) qs)"
  "(Bit t 0 \<in> set (map (\<lambda>q. Bit q 0) qs)) = (t \<in> set qs)"
  by (auto simp: distinct_map inj_on_def)

text \<open>
  C4, as the code has it.  Let the operands be a non-empty list of pairwise distinct
  qubit registers of the circuit and the target a qubit register of the circuit that is
  not an operand, and let the target be false in a basis state \<open>v\<close>.  Then \<open>logic_or\<close>
  returns, having appended X on each operand, the multi-controlled X from the operands to
  the target, X on each operand and X on the target; these gates run on \<open>v\<close> to a state in
  which the target is true exactly when some operand is true in \<open>v\<close>, and every bit other
  than the target, so every operand, has the value it had.
\<close>

theorem logic_or_truth_table:
  assumes "operand_qubits \<noteq> []"
    and "distinct operand_qubits"
    and "target_qubit \<notin> set operand_qubits"
    and "list_all (qubit_register st) (target_qubit # operand_qubits)"
    and "\<not> v (Bit target_qubit 0)"
  shows "\<exists>st' v'. logic_or operand_qubits target_qubit st = Inr st' \<and>
      data (circ st') =
        data (circ st) @
        map XGate (map (\<lambda>q. Bit q 0) operand_qubits) @
        [MCXGate (map (\<lambda>q. Bit q 0) operand_qubits) (Bit target_qubit 0)] @
        map XGate (map (\<lambda>q. Bit q 0) operand_qubits) @ [XGate (Bit target_qubit 0)] \<and>
      run_gates (appended st st') v = Some v' \<and>
      v' (Bit target_qubit 0) = (\<exists>q \<in> set operand_qubits. v (Bit q 0)) \<and>
      (\<forall>b. b \<noteq> Bit target_qubit 0 \<longrightarrow> v' b = v b)"
proof -
  let ?bs = "map (\<lambda>q. Bit q 0) operand_qubits"
  let ?t = "Bit target_qubit 0"
  let ?gs = "map XGate ?bs @ [MCXGate ?bs ?t] @ map XGate ?bs @ [XGate ?t]"
  let ?v1 = "\<lambda>b. if b \<in> set ?bs then \<not> v b else v b"
  let ?v2 = "if list_all ?v1 ?bs then ?v1(?t := \<not> ?v1 ?t) else ?v1"
  let ?v3 = "\<lambda>b. if b \<in> set ?bs then \<not> ?v2 b else ?v2 b"
  let ?v4 = "?v3(?t := \<not> ?v3 ?t)"
  define st' where "st' = add_gates ?gs st"
  have call: "logic_or operand_qubits target_qubit st = Inr st'"
    unfolding st'_def logic_or_gates using assms(1-4) by simp
  have dat: "data (circ st') = data (circ st) @ ?gs" unfolding st'_def by simp
  have app: "appended st st' = ?gs" unfolding st'_def by simp
  have d: "distinct ?bs" using assms(2) by (rule operand_bits)
  have t: "?t \<notin> set ?bs" using assms(3) operand_bits(2) [of target_qubit operand_qubits] by simp
  have s1: "run_gates (map XGate ?bs) v = Some ?v1" using d by (rule run_x_gates)
  have s2: "run_gates [MCXGate ?bs ?t] ?v1 = Some ?v2" by simp
  have s3: "run_gates (map XGate ?bs) ?v2 = Some ?v3" using d by (rule run_x_gates)
  have s4: "run_gates [XGate ?t] ?v3 = Some ?v4" by simp
  have run: "run_gates (appended st st') v = Some ?v4"
    unfolding app by (simp only: run_gates_append s1 s2 s3 s4 option.case)
  have all: "list_all ?v1 ?bs = (\<forall>q \<in> set operand_qubits. \<not> v (Bit q 0))"
    by (auto simp: list_all_iff)
  have target: "?v4 ?t = (\<exists>q \<in> set operand_qubits. v (Bit q 0))"
    using t assms(5) all by auto
  have others: "\<forall>b. b \<noteq> ?t \<longrightarrow> ?v4 b = v b"
    by auto
  from call dat run target others show ?thesis by blast
qed

theorem logic_or_truth_table_witness:
  "\<exists>st' v'. logic_or [QuantumRegister ''q_a'', QuantumRegister ''q_b''] (QuantumRegister ''q_t'')
               three_qubit_instance = Inr st' \<and>
      data (circ st') =
        data (circ three_qubit_instance) @
        map XGate (map (\<lambda>q. Bit q 0) [QuantumRegister ''q_a'', QuantumRegister ''q_b'']) @
        [MCXGate (map (\<lambda>q. Bit q 0) [QuantumRegister ''q_a'', QuantumRegister ''q_b''])
           (Bit (QuantumRegister ''q_t'') 0)] @
        map XGate (map (\<lambda>q. Bit q 0) [QuantumRegister ''q_a'', QuantumRegister ''q_b'']) @
        [XGate (Bit (QuantumRegister ''q_t'') 0)] \<and>
      run_gates (appended three_qubit_instance st') (\<lambda>b. b = Bit (QuantumRegister ''q_b'') 0) =
        Some v' \<and>
      v' (Bit (QuantumRegister ''q_t'') 0) =
        (\<exists>q \<in> set [QuantumRegister ''q_a'', QuantumRegister ''q_b''].
           Bit q 0 = Bit (QuantumRegister ''q_b'') 0) \<and>
      (\<forall>b. b \<noteq> Bit (QuantumRegister ''q_t'') 0 \<longrightarrow>
           v' b = (b = Bit (QuantumRegister ''q_b'') 0))"
  by (rule logic_or_truth_table [where v = "\<lambda>b. b = Bit (QuantumRegister ''q_b'') 0"])
    (simp_all add: qubit_register_def three_qubit_fields)

text \<open>
  Not every list of operands is accepted: \<open>logic_or\<close> ends with \<open>CircuitError\<close> for an
  empty list, for a target that is also an operand, for an operand that occurs twice and
  for an operand outside the circuit.
\<close>

theorem logic_or_rejected_calls:
  "logic_or [] (QuantumRegister ''q_t'') sample_instance = Inl CircuitError \<and>
   logic_or [QuantumRegister ''q_a'', QuantumRegister ''q_t''] (QuantumRegister ''q_t'')
     sample_instance = Inl CircuitError \<and>
   logic_or [QuantumRegister ''q_a'', QuantumRegister ''q_a''] (QuantumRegister ''q_t'')
     sample_instance = Inl CircuitError \<and>
   logic_or [QuantumRegister ''q_a'', QuantumRegister ''q_b''] (QuantumRegister ''q_t'')
     sample_instance = Inl CircuitError"
  by (simp add: logic_or_gates qubit_register_def sample_fields)

text \<open>
  C5, as the code has it.  Let the operands be a non-empty list of pairwise distinct
  qubit registers of the circuit and the target a qubit register of the circuit that is
  not an operand, and let the target be false in a basis state \<open>v\<close>.  Then \<open>logic_and\<close>
  returns, having appended the multi-controlled X from the operands to the target, which
  runs on \<open>v\<close> to a state in which the target is true exactly when all operands are true
  in \<open>v\<close>.
\<close>

theorem logic_and_truth_table:
  assumes "operand_qubits \<noteq> []"
    and "distinct operand_qubits"
    and "target_qubit \<notin> set operand_qubits"
    and "list_all (qubit_register st) (target_qubit # operand_qubits)"
    and "\<not> v (Bit target_qubit 0)"
  shows "\<exists>st' v'. logic_and operand_qubits target_qubit st = Inr st' \<and>
      data (circ st') =
        data (circ st) @
        [MCXGate (map (\<lambda>q. Bit q 0) operand_qubits) (Bit target_qubit 0)] \<and>
      run_gates (appended st st') v = Some v' \<and>
      v' (Bit target_qubit 0) = (\<forall>q \<in> set operand_qubits. v (Bit q 0))"
proof -
  let ?g = "MCXGate (map (\<lambda>q. Bit q 0) operand_qubits) (Bit target_qubit 0)"
  define st' where "st' = add_gates [?g] st"
  have call: "logic_and operand_qubits target_qubit st = Inr st'"
    unfolding st'_def logic_and_gate using assms(1-4) by simp
  have dat: "data (circ st') = data (circ st) @ [?g]" unfolding st'_def by simp
  have app: "appended st st' = [?g]" unfolding st'_def by simp
  have "\<exists>v'. run_gates [?g] v = Some v' \<and>
      v' (Bit target_qubit 0) = (\<forall>q \<in> set operand_qubits. v (Bit q 0))"
    using assms(5) by (auto simp: list_all_iff)
  with call dat app show ?thesis by auto
qed

theorem logic_and_truth_table_witness:
  "\<exists>st' v'. logic_and [QuantumRegister ''q_a'', QuantumRegister ''q_b''] (QuantumRegister ''q_t'')
               three_qubit_instance = Inr st' \<and>
      data (circ st') =
        data (circ three_qubit_instance) @
        [MCXGate (map (\<lambda>q. Bit q 0) [QuantumRegister ''q_a'', QuantumRegister ''q_b''])
           (Bit (QuantumRegister ''q_t'') 0)] \<and>
      run_gates (appended three_qubit_instance st') (\<lambda>b. b \<noteq> Bit (QuantumRegister ''q_t'') 0) =
        Some v' \<and>
      v' (Bit (QuantumRegister ''q_t'') 0) =
        (\<forall>q \<in> set [QuantumRegister ''q_a'', QuantumRegister ''q_b''].
           Bit q 0 \<noteq> Bit (QuantumRegister ''q_t'') 0)"
  by (rule logic_and_truth_table [where v = "\<lambda>b. b \<noteq> Bit (QuantumRegister ''q_t'') 0"])
    (simp_all add: qubit_register_def three_qubit_fields)

text \<open>
  Not every list of operands is accepted: \<open>logic_and\<close> ends with \<open>CircuitError\<close> for an
  empty list, for a target that is also an operand, for an operand that occurs twice and
  for an operand outside the circuit.
\<close>

theorem logic_and_rejected_calls:
  "logic_and [] (QuantumRegister ''q_t'') sample_instance = Inl CircuitError \<and>
   logic_and [QuantumRegister ''q_a'', QuantumRegister ''q_t''] (QuantumRegister ''q_t'')
     sample_instance = Inl CircuitError \<and>
   logic_and [QuantumRegister ''q_a'', QuantumRegister ''q_a''] (QuantumRegister ''q_t'')
     sample_instance = Inl CircuitError \<and>
   logic_and [QuantumRegister ''q_b''] (QuantumRegister ''q_t'') sample_instance =
     Inl CircuitError"
  by (simp add: logic_and_gate qubit_register_def sample_fields)

section \<open>Properties of the registry and the hooks\<close>

lemma create_qubit_registered:
  "create_qubit label st = Inr (reg, st') \<Longrightarrow>
   QuantumRegister (''q_'' @ label) \<in> set (regs (circ st')) \<and>
   set (regs (circ st)) \<subseteq> set (regs (circ st'))"
  by (auto simp: create_qubit_def add_register_def Let_def split: sum.splits if_splits)

lemma apply_calls_keeps_registers:
  "apply_calls calls st = Inr st' \<Longrightarrow> set (regs (circ st)) \<subseteq> set (regs (circ st'))"
proof (induction calls arbitrary: st)
  case Nil
  then show ?case by simp
next
  case (Cons c calls)
  show ?case
  proof (cases c)
    case (CreateQubit label)
    with Cons.prems obtain reg st1 where a: "create_qubit label st = Inr (reg, st1)"
      and b: "apply_calls calls st1 = Inr st'"
      by (auto split: sum.splits)
    from create_qubit_registered [OF a] Cons.IH [OF b] show ?thesis by blast
  next
    case (Gates gs)
    with Cons.prems have "apply_calls calls (add_gates gs st) = Inr st'" by simp
    from Cons.IH [OF this] show ?thesis by simp
  qed
qed

lemma create_qubit_existing:
  "QuantumRegister (''q_'' @ label) \<in> set (regs (circ st)) \<Longrightarrow>
   create_qubit label st = Inl CircuitError"
proof -
  assume "QuantumRegister (''q_'' @ label) \<in> set (regs (circ st))"
  then have "reg_name (QuantumRegister (''q_'' @ label)) \<in> reg_name ` set (regs (circ st))"
    by (rule imageI)
  then show ?thesis by (simp add: create_qubit_def add_register_def Let_def)
qed

lemma create_qubit_failure:
  "create_qubit label st = Inl e \<Longrightarrow>
   e = CircuitError \<and>
   (''q_'' @ label \<in> reg_name ` set (regs (circ st)) \<or>
    ''c_'' @ label \<in> reg_name ` set (regs (circ st)))"
  by (auto simp: create_qubit_def add_register_def Let_def split: sum.splits if_splits)

text \<open>
  C8.  Once \<open>create_qubit\<close> has succeeded with a label, and after any further calls of
  \<open>create_qubit\<close> and of the gate helpers, a second \<open>create_qubit\<close> with the same label
  fails: the circuit library refuses the register name \<open>q_<label>\<close>, which the circuit
  carries since the first call, and the call ends with \<open>CircuitError\<close> before any list of
  the instance is extended.
\<close>

theorem create_qubit_duplicate_label:
  assumes "create_qubit label st = Inr (reg, st_created)"
    and "apply_calls calls st_created = Inr st_later"
  shows "create_qubit label st_later = Inl CircuitError"
proof -
  have "QuantumRegister (''q_'' @ label) \<in> set (regs (circ st_created))"
    using create_qubit_registered [OF assms(1)] by simp
  with apply_calls_keeps_registers [OF assms(2)]
  have "QuantumRegister (''q_'' @ label) \<in> set (regs (circ st_later))" by blast
  then show ?thesis by (rule create_qubit_existing)
qed

theorem create_qubit_duplicate_label_witness:
  "create_qubit ''a'' sample_instance = Inl CircuitError"
proof (rule create_qubit_duplicate_label
    [where st = "\<lparr>circ = \<lparr>regs = [QuantumRegister ''phase_ancilla''],
                          data = [HGate (Bit (QuantumRegister ''phase_ancilla'') 0)]\<rparr>,
                  phase_ancilla = QuantumRegister ''phase_ancilla'',
                  qubits = [], clbits = [], names = []\<rparr>"
       and reg = "QuantumRegister ''q_a''"
       and st_created = "\<lparr>circ = \<lparr>regs = [QuantumRegister ''phase_ancilla'',
                                   QuantumRegister ''q_a'', ClassicalRegister ''c_a''],
                           data = [HGate (Bit (QuantumRegister ''phase_ancilla'') 0)]\<rparr>,
                   phase_ancilla = QuantumRegister ''phase_ancilla'',
                   qubits = [QuantumRegister ''q_a''], clbits = [ClassicalRegister ''c_a''],
                   names = [''a'']\<rparr>"
       and calls = "[Gates [], CreateQubit ''t'']"])
qed (simp_all add: create_qubit_def add_register_def sample_instance_def Let_def)

text \<open>
  C9.  Where the subclass does not override \<open>prepare\<close>, calling it fails with
  \<open>NotImplementedError\<close>, and so does the constructor, which calls it; where it does
  not override \<open>build_search_space\<close> or \<open>revert_search_space\<close>, calling that method fails
  with \<open>NotImplementedError\<close>.
\<close>

theorem unimplemented_hooks:
  "(prepare_override P = None \<longrightarrow>
      prepare P st = Inl NotImplementedError \<and> init P = Inl NotImplementedError) \<and>
   (build_search_space_override P = None \<longrightarrow>
      build_search_space P st = Inl NotImplementedError) \<and>
   (revert_search_space_override P = None \<longrightarrow>
      revert_search_space P st = Inl NotImplementedError)"
  by (simp add: prepare_def build_search_space_def revert_search_space_def init_def
        add_register_def QuantumCircuit_def circ_h_def circ_gate_def Let_def)

theorem unimplemented_hooks_witness:
  "init GroverAlgorithm = Inl NotImplementedError \<and>
   prepare GroverAlgorithm sample_instance = Inl NotImplementedError \<and>
   build_search_space GroverAlgorithm sample_instance = Inl NotImplementedError \<and>
   revert_search_space GroverAlgorithm sample_instance = Inl NotImplementedError"
  using unimplemented_hooks [of GroverAlgorithm sample_instance]
  by (simp add: GroverAlgorithm_def)

end
